theory Spec2Isabelle
  imports Main
begin

unbundle bit_operations_syntax

section \<open>Python values and exceptions\<close>

text \<open>
  The client is Python 2 code (\<^verbatim>\<open>vos/vos.py\<close>). A few of its variables hold values of
  more than one Python type (a declared size that is \<^verbatim>\<open>None\<close>, an \<^verbatim>\<open>int\<close> or the text of
  a header; the third argument of an exception), so such values are a small tagged union.
\<close>

datatype pyval = PyNone | PyInt int | PyStr string | PyBool bool

text \<open>
  Exceptions are values. \<^verbatim>\<open>IOError(errno, strerror, filename)\<close> and \<^verbatim>\<open>OSError\<close> keep their
  three arguments. The \<^verbatim>\<open>errno\<close> constants are those of Linux.
\<close>

datatype error =
    IOError int string pyval
  | OSError int string pyval
  | TypeError
  | AttributeError
  | NameError string
  | UnboundLocalError string
  | HTTPException string

definition ENOENT :: int where "ENOENT = 2"
definition EIO :: int where "EIO = 5"
definition EACCES :: int where "EACCES = 13"
definition EEXIST :: int where "EEXIST = 17"
definition EOPNOTSUPP :: int where "EOPNOTSUPP = 95"
definition ECONNREFUSED :: int where "ECONNREFUSED = 111"

text \<open>
  \<^verbatim>\<open>s.startswith(p)\<close>, and \<^verbatim>\<open>re.search(pat, s)\<close> for a pattern without
  metacharacters: \<open>pat\<close> occurs in \<open>s\<close>.
\<close>

fun startswith :: "string \<Rightarrow> string \<Rightarrow> bool" where
  "startswith s [] = True"
| "startswith [] (p # ps) = False"
| "startswith (c # cs) (p # ps) = (c = p \<and> startswith cs ps)"

fun re_search_literal :: "string \<Rightarrow> string \<Rightarrow> bool" where
  "re_search_literal pat [] = (pat = [])"
| "re_search_literal pat (c # cs) = (startswith (c # cs) pat \<or> re_search_literal pat cs)"

section \<open>The URL parser: class urlparse\<close>

text \<open>
  The URL parser, class \<^verbatim>\<open>urlparse\<close>: one \<^verbatim>\<open>re.match\<close> of
  \<^verbatim>\<open>(^(?P<scheme>[a-zA-Z]*):)?(//(?P<netloc>[^/]*))?(?P<path>/?.*)?\<close>. The scheme group
  takes part only when the leading letters are followed by a colon, the authority group only
  after \<^verbatim>\<open>//\<close>; a group that takes no part is \<^verbatim>\<open>None\<close>. The path group always takes
  part, and \<^verbatim>\<open>.\<close> stops at a newline.
\<close>

definition isalpha :: "char \<Rightarrow> bool" where
  "isalpha c = (c \<in> set ''abcdefghijklmnopqrstuvwxyzABCDEFGHIJKLMNOPQRSTUVWXYZ'')"

record urlparts =
  scheme :: "string option"
  netloc :: "string option"
  path :: string

definition urlparse :: "string \<Rightarrow> urlparts" where
  "urlparse u =
     (let (sch, rest1) =
            (case dropWhile isalpha u of
               [] \<Rightarrow> (None, u)
             | c # cs \<Rightarrow> if c = CHR '':'' then (Some (takeWhile isalpha u), cs) else (None, u));
          (net, rest2) =
            (if startswith rest1 ''//''
             then (Some (takeWhile (\<lambda>c. c \<noteq> CHR ''/'') (drop 2 rest1)),
                   dropWhile (\<lambda>c. c \<noteq> CHR ''/'') (drop 2 rest1))
             else (None, rest1))
      in \<lparr>scheme = sch, netloc = net, path = takeWhile (\<lambda>c. c \<noteq> CHR 0x0A) rest2\<rparr>)"

section \<open>The credential holder: Connection.getConnection\<close>

text \<open>
  What one call of \<^verbatim>\<open>connection.connect()\<close> does: return, raise an
  \<^verbatim>\<open>httplib.HTTPException\<close>, or raise any other exception.
\<close>

datatype connect_outcome = Connected | RaisesHTTP string | RaisesOther string

definition opt_str :: "string option \<Rightarrow> pyval" where
  "opt_str s = (case s of None \<Rightarrow> PyNone | Some x \<Rightarrow> PyStr x)"

text \<open>
  \<^verbatim>\<open>getConnection(url)\<close> from the first \<^verbatim>\<open>connect()\<close> on. \<open>attempt k\<close> is the outcome of
  the \<open>k\<close>-th call of \<^verbatim>\<open>connect()\<close> and \<open>clock k\<close> the \<open>k\<close>-th reading of
  \<^verbatim>\<open>time.time()\<close>. The body of \<^verbatim>\<open>while True\<close> ends in \<^verbatim>\<open>break\<close> on every path that
  does not raise, so the body runs once. In the handler of \<^verbatim>\<open>HTTPException\<close> the second
  statement looks up the name \<^verbatim>\<open>logggin\<close>, which the module never binds: the lookup raises
  \<^verbatim>\<open>NameError\<close> before the clock is read, and an exception raised inside a handler is not
  caught by the other handlers of the same \<^verbatim>\<open>try\<close>. The result on success is the
  authority the connection is bound to.
\<close>

definition getConnection ::
    "string \<Rightarrow> (nat \<Rightarrow> connect_outcome) \<Rightarrow> (nat \<Rightarrow> int) \<Rightarrow> error + string option" where
  "getConnection u attempt clock =
     (let parts = urlparse u;
          timestart = clock 0
      in case attempt 0 of
           Connected \<Rightarrow> Inr (netloc parts)
         | RaisesHTTP e \<Rightarrow> Inl (NameError ''logggin'')
         | RaisesOther e \<Rightarrow>
             Inl (IOError ECONNREFUSED ''VOSpace connection failed'' (opt_str (netloc parts))))"

section \<open>The transport stream: class VOFile\<close>

text \<open>
  What the HTTP library gives back: a response with its status line, headers (httplib keeps
  the header names in lower case) and the body that \<^verbatim>\<open>read()\<close> has not consumed yet.
\<close>

record HTTPResponse =
  status :: int
  reason :: string
  headers :: "(string \<times> string) list"
  body :: string

text \<open>
  The connection object of one exchange. \<open>sent\<close> is the list of buffers passed to
  \<^verbatim>\<open>send\<close> so far (the network output), \<open>reply\<close> is what \<^verbatim>\<open>getresponse()\<close> will do:
  raise or return a response. \<open>con_closed\<close> records \<^verbatim>\<open>httpCon.close()\<close>.
\<close>

record HTTPConnection =
  sent :: "string list"
  reply :: "error + HTTPResponse"
  con_closed :: bool

text \<open>
  \<^verbatim>\<open>self.resp\<close> is the integer 503 after \<^verbatim>\<open>__init__\<close> and a response object after
  \<^verbatim>\<open>getresponse()\<close>.
\<close>

datatype resp_field = RespInt int | Resp HTTPResponse

record VOFile =
  closed :: bool
  resp :: resp_field
  httpCon :: "HTTPConnection option"
  size' :: pyval
  name' :: string
  fpos :: int
  url :: string

definition SEEK_SET :: int where "SEEK_SET = 0"
definition SEEK_CUR :: int where "SEEK_CUR = 1"
definition SEEK_END :: int where "SEEK_END = 2"

text \<open>
  \<^verbatim>\<open>VOFile.seek(offset, loc)\<close>. \<^verbatim>\<open>self.size - offset\<close> raises \<^verbatim>\<open>TypeError\<close> unless the
  size is a number (it is \<^verbatim>\<open>None\<close> when no size was declared and a header text after
  \<^verbatim>\<open>checkstatus\<close>; a \<^verbatim>\<open>bool\<close> counts as the integer 0 or 1). Any other \<^verbatim>\<open>loc\<close> falls
  through all three branches.
\<close>

definition seek :: "VOFile \<Rightarrow> int \<Rightarrow> int \<Rightarrow> error + VOFile" where
  "seek f offset loc =
     (if loc = SEEK_CUR then Inr (f\<lparr>fpos := fpos f + offset\<rparr>)
      else if loc = SEEK_SET then Inr (f\<lparr>fpos := offset\<rparr>)
      else if loc = SEEK_END then
        (case size' f of
           PyInt n \<Rightarrow> Inr (f\<lparr>fpos := n - offset\<rparr>)
         | PyBool b \<Rightarrow> Inr (f\<lparr>fpos := (if b then 1 else 0) - offset\<rparr>)
         | PyNone \<Rightarrow> Inl TypeError
         | PyStr s \<Rightarrow> Inl TypeError)
      else Inr f)"

text \<open>\<^verbatim>\<open>resp.read()\<close> returns the rest of the body and leaves nothing to read.\<close>

definition resp_read :: "HTTPResponse \<Rightarrow> string \<times> HTTPResponse" where
  "resp_read r = (body r, r\<lparr>body := []\<rparr>)"

text \<open>\<^verbatim>\<open>resp.getheader(name, default)\<close>, the name already in lower case.\<close>

definition getheader :: "HTTPResponse \<Rightarrow> string \<Rightarrow> pyval \<Rightarrow> pyval" where
  "getheader r h dflt = (case map_of (headers r) h of None \<Rightarrow> dflt | Some v \<Rightarrow> PyStr v)"

text \<open>
  \<^verbatim>\<open>VOFile.checkstatus(codes)\<close>. On an integer \<^verbatim>\<open>self.resp\<close> the attribute
  \<^verbatim>\<open>.status\<close> does not exist. A 409 whose body does not name \<^verbatim>\<open>DuplicateNode\<close> falls
  through to the general error, whose message is a second \<^verbatim>\<open>read()\<close>.
\<close>

definition checkstatus_default :: "int list" where
  "checkstatus_default = [200, 201, 202, 206, 302, 303, 503, 416]"

definition checkstatus :: "VOFile \<Rightarrow> int list \<Rightarrow> error + (bool \<times> VOFile)" where
  "checkstatus f codes =
     (case resp f of
        RespInt n \<Rightarrow> Inl AttributeError
      | Resp r \<Rightarrow>
          if status r \<notin> set codes then
            (if status r = 404 then Inl (IOError ENOENT ''Node not found'' (PyStr (url f)))
             else if status r = 401 then Inl (IOError EACCES ''Not authorized'' (PyStr (url f)))
             else if status r = 409 then
               (let (b, r') = resp_read r in
                if re_search_literal ''DuplicateNode'' b
                then Inl (OSError EEXIST ''File Exists'' (PyStr (url f)))
                else Inl (IOError (status r') (fst (resp_read r')) (PyStr (url f))))
             else Inl (IOError (status r) (fst (resp_read r)) (PyStr (url f))))
          else Inr (True, f\<lparr>size' := getheader r ''content-length'' (PyInt 0)\<rparr>))"

text \<open>
  \<^verbatim>\<open>VOFile.close(code)\<close>. The three calls on the connection sit in one \<^verbatim>\<open>try\<close> whose
  handler only logs: when there is no connection (\<^verbatim>\<open>httpCon\<close> is \<^verbatim>\<open>None\<close>) or
  \<^verbatim>\<open>getresponse()\<close> raises, \<^verbatim>\<open>self.resp\<close> keeps its old value. The method returns
  \<^verbatim>\<open>None\<close> on a closed file and the result of \<^verbatim>\<open>checkstatus(codes=code)\<close> otherwise.
\<close>

definition close_default :: "int list" where
  "close_default = [200, 201, 202, 206, 302, 303, 503]"

definition close_exchange :: "VOFile \<Rightarrow> VOFile" where
  "close_exchange f =
     (case httpCon f of
        None \<Rightarrow> f
      | Some c \<Rightarrow>
          (let c1 = c\<lparr>sent := sent c @ [[CHR ''0'', CHR 0x0D, CHR 0x0A, CHR 0x0D, CHR 0x0A]]\<rparr> in
           case reply c1 of
             Inl e \<Rightarrow> f\<lparr>httpCon := Some c1\<rparr>
           | Inr r \<Rightarrow> f\<lparr>resp := Resp r, httpCon := Some (c1\<lparr>con_closed := True\<rparr>)\<rparr>))"

definition close :: "VOFile \<Rightarrow> int list \<Rightarrow> error + (bool option \<times> VOFile)" where
  "close f code =
     (if closed f then Inr (None, f)
      else
        (let f1 = (close_exchange f)\<lparr>closed := True\<rparr> in
         case checkstatus f1 code of
           Inl e \<Rightarrow> Inl e
         | Inr (b, f2) \<Rightarrow> Inr (Some b, f2)))"

section \<open>The client facade: class Client\<close>

text \<open>The access modes of \<^verbatim>\<open>os\<close> (Linux values).\<close>

definition O_RDONLY :: int where "O_RDONLY = 0"
definition O_WRONLY :: int where "O_WRONLY = 1"
definition O_CREAT :: int where "O_CREAT = 64"
definition O_TRUNC :: int where "O_TRUNC = 512"
definition O_APPEND :: int where "O_APPEND = 1024"

text \<open>The \<^verbatim>\<open>mode\<close> argument of \<^verbatim>\<open>Client.open\<close> is a \<^verbatim>\<open>str\<close> at some call sites.\<close>

datatype pymode = ModeStr string | ModeInt int

text \<open>
  The method chosen by \<^verbatim>\<open>Client.open(uri, mode, ..., head, ...)\<close>: the coercion of a string
  mode, the \<^verbatim>\<open>if/elif\<close> chain over the flags, the \<^verbatim>\<open>head\<close> override and the error when no
  method was chosen.
\<close>

definition open_method :: "pymode \<Rightarrow> bool \<Rightarrow> error + string" where
  "open_method mode head =
     (let m = (case mode of ModeStr s \<Rightarrow> O_RDONLY | ModeInt i \<Rightarrow> i);
          method0 =
            (if m = O_RDONLY then Some ''GET''
             else if m AND (O_WRONLY OR O_CREAT) \<noteq> 0 then Some ''PUT''
             else if m AND O_APPEND \<noteq> 0 then Some ''POST''
             else if m AND O_TRUNC \<noteq> 0 then Some ''DELETE''
             else None);
          method = (if head then Some ''HEAD'' else method0)
      in case method of
           None \<Rightarrow> Inl (IOError EOPNOTSUPP ''Invalid access mode'' (PyInt m))
         | Some s \<Rightarrow> Inr s)"

section \<open>The streaming copy: Client.copy\<close>

text \<open>
  The property map of a node: the key is the fragment of the property's URI after
  \<^verbatim>\<open>#\<close> (\<^verbatim>\<open>None\<close> when the URI has no fragment), the value the element's text
  (\<^verbatim>\<open>None\<close> when it has none).
\<close>

type_synonym props = "string option \<rightharpoonup> string option"

text \<open>
  What \<^verbatim>\<open>copy\<close> observes of its surroundings: the size of the source (the
  \<^verbatim>\<open>st_size\<close> of the node, or of the local file), the buffers that the successive
  \<^verbatim>\<open>fin.read(BUFSIZE)\<close> return (a read past the recorded ones returns the empty buffer),
  and the property maps of the two nodes as \<^verbatim>\<open>getNode\<close> gives them after the transfer.
\<close>

record copy_env =
  srcSize :: int
  reads :: "string list"
  src_props :: props
  dest_props :: props

text \<open>
  The transfer loop. The state is the list of buffers written to \<^verbatim>\<open>fout\<close>, the bytes fed to
  the MD5 object by \<^verbatim>\<open>md5.update\<close>, and \<^verbatim>\<open>destSize\<close>.
\<close>

fun copy_loop :: "string list \<Rightarrow> string list \<times> string \<times> int \<Rightarrow> string list \<times> string \<times> int" where
  "copy_loop [] st = st"
| "copy_loop (buf # bufs) (out, fed, destSize) =
     (if length buf = 0 then (out, fed, destSize)
      else copy_loop bufs (out @ [buf], fed @ buf, destSize + int (length buf)))"

definition default_MD5 :: string where
  "default_MD5 = ''d41d8cd98f00b204e9800998ecf8427e''"

text \<open>\<^verbatim>\<open>props.get(key, default)\<close>.\<close>

definition props_get :: "props \<Rightarrow> string \<Rightarrow> string option \<Rightarrow> string option" where
  "props_get ps k dflt = (case ps (Some k) of None \<Rightarrow> dflt | Some v \<Rightarrow> v)"

text \<open>
  \<^verbatim>\<open>Client.copy(src, dest, sendMD5)\<close> once both streams are open. \<open>H\<close> is the hex digest
  of MD5 (\<^verbatim>\<open>hashlib\<close>): the digest of an MD5 object is that of the concatenation of the
  buffers it was fed. The result is the value returned (a digest or a byte count) and what
  was written.
\<close>

definition copy ::
    "(string \<Rightarrow> string) \<Rightarrow> copy_env \<Rightarrow> string \<Rightarrow> string \<Rightarrow> bool \<Rightarrow> error + (pyval \<times> string list)" where
  "copy H env src dest sendMD5 =
     (let checkSource = (take 4 src = ''vos:'');
          (out, fed, destSize) = copy_loop (reads env) ([], [], 0);
          checkMD5 = (if checkSource then props_get (src_props env) ''MD5'' (Some default_MD5)
                      else props_get (dest_props env) ''MD5'' (Some default_MD5))
      in if sendMD5 then
           (if checkMD5 \<noteq> Some (H fed)
            then Inl (OSError EIO ''MD5s don't match'' (PyStr src))
            else Inr (PyStr (H fed), out))
         else if destSize \<noteq> srcSize env
           then Inl (IOError EIO ''sizes don't match'' (PyStr src))
           else Inr (PyInt destSize, out))"

section \<open>The node model: class Node\<close>

text \<open>
  An element of \<^verbatim>\<open>xml.etree.ElementTree\<close>: tag, attribute dictionary, text (\<^verbatim>\<open>None\<close> when
  the element has none) and child elements in document order.
\<close>

datatype elem = Elem (tag: string) (attrib: "(string \<times> string) list") (etext: "string option")
  (children: "elem list")

definition set_attrib :: "(string \<times> string) list \<Rightarrow> elem \<Rightarrow> elem" where
  "set_attrib a e = Elem (tag e) a (etext e) (children e)"

definition set_etext :: "string option \<Rightarrow> elem \<Rightarrow> elem" where
  "set_etext x e = Elem (tag e) (attrib e) x (children e)"

definition set_children :: "elem list \<Rightarrow> elem \<Rightarrow> elem" where
  "set_children cs e = Elem (tag e) (attrib e) (etext e) cs"

text \<open>A dictionary with string keys, as an association list: \<^verbatim>\<open>d[k] = v\<close>.\<close>

fun dict_set :: "string \<Rightarrow> 'v \<Rightarrow> (string \<times> 'v) list \<Rightarrow> (string \<times> 'v) list" where
  "dict_set k v [] = [(k, v)]"
| "dict_set k v ((k', v') # kvs) = (if k' = k then (k, v) # kvs else (k', v') # dict_set k v kvs)"

text \<open>\<^verbatim>\<open>e.get(key)\<close>, \<^verbatim>\<open>e.findall(tag)\<close> (the children with that tag, in order).\<close>

definition eget :: "elem \<Rightarrow> string \<Rightarrow> string option" where
  "eget e k = map_of (attrib e) k"

definition findall :: "string \<Rightarrow> elem \<Rightarrow> elem list" where
  "findall t e = filter (\<lambda>c. tag c = t) (children e)"

definition IVOAURL :: string where "IVOAURL = ''ivo://ivoa.net/vospace/core''"
definition VOSNS :: string where "VOSNS = ''http://www.ivoa.net/xml/VOSpace/v2.0''"
definition XSINS :: string where "XSINS = ''http://www.w3.org/2001/XMLSchema-instance''"
definition Node_TYPE :: string where "Node_TYPE = ''{'' @ XSINS @ ''}type''"
definition NODES :: string where "NODES = ''{'' @ VOSNS @ ''}nodes''"
definition NODE :: string where "NODE = ''{'' @ VOSNS @ ''}node''"
definition PROPERTIES :: string where "PROPERTIES = ''{'' @ VOSNS @ ''}properties''"
definition PROPERTY :: string where "PROPERTY = ''{'' @ VOSNS @ ''}property''"

text \<open>
  \<^verbatim>\<open>urllib.splittag(url)\<close>: a match of \<^verbatim>\<open>^(.*)#([^#]*)$\<close>. The tag is what follows the last
  \<^verbatim>\<open>#\<close>; there is no match (and the tag is \<^verbatim>\<open>None\<close>) when the URL has no \<^verbatim>\<open>#\<close> or has a
  newline before the last one.
\<close>

definition splittag :: "string \<Rightarrow> string \<times> string option" where
  "splittag u =
     (case dropWhile (\<lambda>c. c \<noteq> CHR ''#'') (rev u) of
        [] \<Rightarrow> (u, None)
      | h # before_rev \<Rightarrow>
          if CHR 0x0A \<in> set before_rev then (u, None)
          else (rev before_rev, Some (rev (takeWhile (\<lambda>c. c \<noteq> CHR ''#'') (rev u)))))"

text \<open>\<^verbatim>\<open>os.path.basename(p)\<close>: what follows the last slash.\<close>

definition basename :: "string \<Rightarrow> string" where
  "basename p = rev (takeWhile (\<lambda>c. c \<noteq> CHR ''/'') (rev p))"

text \<open>
  \<^verbatim>\<open>Node.getPropName(prop)\<close> and the same two lines inside \<^verbatim>\<open>changeProp\<close>: the tag of the
  element's \<^verbatim>\<open>uri\<close> attribute. \<^verbatim>\<open>splittag(None)\<close> raises \<^verbatim>\<open>TypeError\<close>.
\<close>

definition getPropName :: "elem \<Rightarrow> error + string option" where
  "getPropName prop =
     (case eget prop ''uri'' of None \<Rightarrow> Inl TypeError | Some u \<Rightarrow> Inr (snd (splittag u)))"

definition getPropValue :: "elem \<Rightarrow> string option" where
  "getPropValue prop = etext prop"

text \<open>\<^verbatim>\<open>Node.setProps(props)\<close>: the loop over the property elements of one \<^verbatim>\<open>properties\<close> element.\<close>

fun setProps_loop :: "elem list \<Rightarrow> props \<Rightarrow> error + props" where
  "setProps_loop [] ps = Inr ps"
| "setProps_loop (p # rest) ps =
     (case getPropName p of
        Inl e \<Rightarrow> Inl e
      | Inr k \<Rightarrow> setProps_loop rest (ps(k \<mapsto> getPropValue p)))"

definition setProps :: "props \<Rightarrow> elem \<Rightarrow> error + props" where
  "setProps ps propsElem = setProps_loop (findall PROPERTY propsElem) ps"

text \<open>The loop of \<^verbatim>\<open>update()\<close> over \<^verbatim>\<open>self.node.findall(Node.PROPERTIES)\<close>.\<close>

fun setProps_all :: "elem list \<Rightarrow> props \<Rightarrow> error + props" where
  "setProps_all [] ps = Inr ps"
| "setProps_all (pe # rest) ps =
     (case setProps ps pe of Inl e \<Rightarrow> Inl e | Inr ps' \<Rightarrow> setProps_all rest ps')"

text \<open>
  The fields of a \<^verbatim>\<open>Node\<close> object. \<^verbatim>\<open>uri\<close>, \<^verbatim>\<open>name\<close>, \<^verbatim>\<open>isPublic\<close>, \<^verbatim>\<open>groupwrite\<close> and
  \<^verbatim>\<open>groupread\<close> are not assigned by \<^verbatim>\<open>__init__\<close>; \<^verbatim>\<open>update()\<close> assigns them unless the
  element has no type. \<open>None\<close> stands for a field never assigned (reading it raises
  \<^verbatim>\<open>AttributeError\<close>). The two groups are the text of a property and can be Python's
  \<^verbatim>\<open>None\<close>. Of the \<^verbatim>\<open>attr\<close> dictionary the model keeps \<^verbatim>\<open>st_mode\<close> and \<^verbatim>\<open>st_nlink\<close>; the
  time stamps, owner ids and \<^verbatim>\<open>st_size\<close> (the clock, \<^verbatim>\<open>strptime\<close> of the \<^verbatim>\<open>date\<close> property,
  \<^verbatim>\<open>int\<close> of the \<^verbatim>\<open>length\<close> property) are left out, so the model speaks of nodes whose
  \<^verbatim>\<open>date\<close> and \<^verbatim>\<open>length\<close> properties, if any, convert.
\<close>

record NodeObj =
  node :: elem
  type :: "string option"
  uri :: "string option"
  name :: "string option"
  props :: props
  isPublic :: "bool option"
  groupwrite :: "string option option"
  groupread :: "string option option"
  attr :: "(string \<times> int) list"
  xattr :: props

text \<open>A node and its \<^verbatim>\<open>_nodeList\<close>: \<^verbatim>\<open>None\<close> until loaded, then the child nodes.\<close>

datatype Node = Node (obj: NodeObj) (nodeList: "Node list option")

definition upd_obj :: "(NodeObj \<Rightarrow> NodeObj) \<Rightarrow> Node \<Rightarrow> Node" where
  "upd_obj f n = Node (f (obj n)) (nodeList n)"

definition set_nodeList :: "Node list option \<Rightarrow> Node \<Rightarrow> Node" where
  "set_nodeList l n = Node (obj n) l"

text \<open>The constants of \<^verbatim>\<open>stat\<close>.\<close>

definition S_IFDIR :: int where "S_IFDIR = 16384"
definition S_IFREG :: int where "S_IFREG = 32768"
definition S_IRUSR :: int where "S_IRUSR = 256"
definition S_IWUSR :: int where "S_IWUSR = 128"
definition S_IXUSR :: int where "S_IXUSR = 64"
definition S_IRGRP :: int where "S_IRGRP = 32"
definition S_IWGRP :: int where "S_IWGRP = 16"
definition S_IXGRP :: int where "S_IXGRP = 8"
definition S_IROTH :: int where "S_IROTH = 4"
definition S_IXOTH :: int where "S_IXOTH = 1"

text \<open>
  The value of the local \<^verbatim>\<open>st_mode\<close> that \<^verbatim>\<open>setattr\<close> builds from the type and the
  property map of the node.
\<close>

definition st_mode :: "NodeObj \<Rightarrow> int" where
  "st_mode n =
     (let m0 = (if type n = Some ''vos:ContainerNode'' then 0 OR S_IFDIR else 0 OR S_IFREG);
          m1 = m0 OR (S_IRUSR OR S_IWUSR OR S_IXUSR);
          m2 = (if props_get (props n) ''groupwrite'' (Some ''NONE'') \<noteq> Some ''NONE''
                then m1 OR S_IWGRP else m1);
          m3 = (if props_get (props n) ''groupread'' (Some ''NONE'') \<noteq> Some ''NONE''
                then (m2 OR S_IRGRP) OR S_IXGRP else m2)
      in if props_get (props n) ''ispublic'' (Some ''false'') = Some ''true''
         then m3 OR (S_IROTH OR S_IXOTH) else m3)"

text \<open>Running the constructors of a list of children in order: the first exception ends it.\<close>

fun sequence_err :: "(error + 'a) list \<Rightarrow> error + 'a list" where
  "sequence_err [] = Inr []"
| "sequence_err (r # rs) =
     (case r of
        Inl e \<Rightarrow> Inl e
      | Inr x \<Rightarrow> (case sequence_err rs of Inl e \<Rightarrow> Inl e | Inr xs \<Rightarrow> Inr (x # xs)))"

text \<open>
  \<^verbatim>\<open>Node.getNodeList()\<close>. \<open>kids\<close> are the results of \<^verbatim>\<open>Node(childEt)\<close> for the
  \<^verbatim>\<open>node\<close> elements under the \<^verbatim>\<open>nodes\<close> elements of this node, which \<^verbatim>\<open>addChild\<close> runs
  only when the list was not loaded yet.
\<close>

definition getNodeList :: "(error + Node) list \<Rightarrow> Node \<Rightarrow> error + (Node list \<times> Node)" where
  "getNodeList kids n =
     (case nodeList n of
        Some l \<Rightarrow> Inr (l, n)
      | None \<Rightarrow>
          (case sequence_err kids of
             Inl e \<Rightarrow> Inl e
           | Inr l \<Rightarrow> Inr (l, set_nodeList (Some l) n)))"

text \<open>\<^verbatim>\<open>Node.setattr()\<close> with its default argument: \<^verbatim>\<open>st_nlink\<close> and \<^verbatim>\<open>st_mode\<close>.\<close>

definition setattr :: "(error + Node) list \<Rightarrow> Node \<Rightarrow> error + Node" where
  "setattr kids n =
     (if type (obj n) = Some ''vos:ContainerNode'' then
        (case getNodeList kids n of
           Inl e \<Rightarrow> Inl e
         | Inr (l, n1) \<Rightarrow>
             Inr (upd_obj (\<lambda>ob. ob\<lparr>attr := [(''st_nlink'', int (length l) + 2),
                                            (''st_mode'', st_mode ob)]\<rparr>) n1))
      else Inr (upd_obj (\<lambda>ob. ob\<lparr>attr := [(''st_nlink'', 1), (''st_mode'', st_mode ob)]\<rparr>) n))"

text \<open>The reserved property names, \<^verbatim>\<open>Client.vosProperties\<close>, and \<^verbatim>\<open>Node.setxattr()\<close>.\<close>

definition vosProperties :: "string list" where
  "vosProperties = [''description'', ''type'', ''encoding'', ''MD5'', ''length'', ''creator'',
     ''date'', ''groupread'', ''groupwrite'', ''ispublic'']"

definition setxattr :: "NodeObj \<Rightarrow> NodeObj" where
  "setxattr n =
     n\<lparr>xattr := (\<lambda>k. if k \<in> Some ` set vosProperties then xattr n k
                      else (case props n k of None \<Rightarrow> xattr n k | Some v \<Rightarrow> Some v))\<rparr>"

text \<open>
  \<^verbatim>\<open>Node.update()\<close>. Without a type it returns at once. \<^verbatim>\<open>os.path.basename(None)\<close>
  raises \<^verbatim>\<open>AttributeError\<close>. The property map is not emptied first: the properties of the
  element are written over what the map holds.
\<close>

definition update_from :: "(error + Node) list \<Rightarrow> Node \<Rightarrow> error + Node" where
  "update_from kids n =
     (case eget (node (obj n)) Node_TYPE of
        None \<Rightarrow> Inr (upd_obj (\<lambda>ob. ob\<lparr>type := None\<rparr>) n)
      | Some t \<Rightarrow>
          (case eget (node (obj n)) ''uri'' of
             None \<Rightarrow> Inl AttributeError
           | Some u \<Rightarrow>
               (case setProps_all (findall PROPERTIES (node (obj n))) (props (obj n)) of
                  Inl e \<Rightarrow> Inl e
                | Inr ps \<Rightarrow>
                    (case setattr kids
                            (upd_obj (\<lambda>ob. ob\<lparr>type := Some t, uri := Some u,
                                 name := Some (basename u), props := ps,
                                 isPublic := Some (props_get ps ''ispublic'' (Some ''false'') = Some ''true''),
                                 groupwrite := Some (props_get ps ''groupwrite'' (Some [])),
                                 groupread := Some (props_get ps ''groupread'' (Some []))\<rparr>) n) of
                       Inl e \<Rightarrow> Inl e
                     | Inr n1 \<Rightarrow> Inr (upd_obj setxattr n1)))))"

text \<open>
  \<^verbatim>\<open>Node(node)\<close> for an element: \<^verbatim>\<open>__init__\<close> sets the namespace attribute, starts from
  empty dictionaries and an unloaded child list, and calls \<^verbatim>\<open>update()\<close>, which builds the
  nodes of the embedded children when the node is a container.
\<close>

definition child_elems :: "elem \<Rightarrow> elem list" where
  "child_elems e = concat (map (findall NODE) (findall NODES e))"

definition fresh :: "elem \<Rightarrow> Node" where
  "fresh e =
     Node \<lparr>node = set_attrib (dict_set ''xmlns:vos'' VOSNS (attrib e)) e, type = None, uri = None,
           name = None, props = Map.empty, isPublic = None, groupwrite = None, groupread = None,
           attr = [], xattr = Map.empty\<rparr> None"

lemma child_elems_smaller: "x \<in> set (child_elems e) \<Longrightarrow> size x < size e"
proof -
  assume "x \<in> set (child_elems e)"
  then obtain c where c: "c \<in> set (children e)" and x: "x \<in> set (children c)"
    by (auto simp: child_elems_def findall_def)
  have sub: "\<And>a b. a \<in> set (children b) \<Longrightarrow> size a < size b"
  proof -
    fix a b :: elem
    assume "a \<in> set (children b)"
    then show "size a < size b"
      by (cases b) (auto simp: less_Suc_eq_le dest: size_list_estimation')
  qed
  from sub [OF x] sub [OF c] show ?thesis by simp
qed

function Node_init :: "elem \<Rightarrow> error + Node" where
  "Node_init e = update_from (map Node_init (child_elems e)) (fresh e)"
  by pat_completeness auto
termination
  by (relation "measure size") (auto dest: child_elems_smaller)

text \<open>\<^verbatim>\<open>update()\<close> on an existing node.\<close>

definition update :: "Node \<Rightarrow> error + Node" where
  "update n = update_from (map Node_init (child_elems (node (obj n)))) n"

text \<open>
  \<^verbatim>\<open>Node.changeProp(key, value)\<close>. The two nested loops visit, in document order, the
  \<^verbatim>\<open>property\<close> children of every \<^verbatim>\<open>properties\<close> child of the node's element, and change
  the elements in place; the model rebuilds the lists of children. The loop state is
  \<^verbatim>\<open>(found, changed)\<close>.
\<close>

definition mark_deleted :: "elem \<Rightarrow> elem" where
  "mark_deleted prop = set_etext (Some []) (set_attrib (dict_set ''xsi:nil'' ''true'' (attrib prop)) prop)"

fun changeProp_inner ::
    "string \<Rightarrow> string option \<Rightarrow> elem list \<Rightarrow> bool \<times> int \<Rightarrow> error + (elem list \<times> bool \<times> int)" where
  "changeProp_inner key val [] st = Inr ([], st)"
| "changeProp_inner key val (prop # rest) (found, changed) =
     (if tag prop \<noteq> PROPERTY then
        (case changeProp_inner key val rest (found, changed) of
           Inl e \<Rightarrow> Inl e
         | Inr (rest', st') \<Rightarrow> Inr (prop # rest', st'))
      else
        (case getPropName prop of
           Inl e \<Rightarrow> Inl e
         | Inr propName \<Rightarrow>
             if propName \<noteq> Some key then
               (case changeProp_inner key val rest (found, changed) of
                  Inl e \<Rightarrow> Inl e
                | Inr (rest', st') \<Rightarrow> Inr (prop # rest', st'))
             else
               (case val of
                  None \<Rightarrow>
                    (case changeProp_inner key val rest (True, changed) of
                       Inl e \<Rightarrow> Inl e
                     | Inr (rest', st') \<Rightarrow> Inr (mark_deleted prop # rest', st'))
                | Some v \<Rightarrow>
                    (case changeProp_inner key val rest (True, 1) of
                       Inl e \<Rightarrow> Inl e
                     | Inr (rest', st') \<Rightarrow> Inr (set_etext (Some v) prop # rest', st')))))"

fun changeProp_outer ::
    "string \<Rightarrow> string option \<Rightarrow> elem list \<Rightarrow> bool \<times> int \<Rightarrow> error + (elem list \<times> bool \<times> int)" where
  "changeProp_outer key val [] st = Inr ([], st)"
| "changeProp_outer key val (c # rest) st =
     (if tag c \<noteq> PROPERTIES then
        (case changeProp_outer key val rest st of
           Inl e \<Rightarrow> Inl e
         | Inr (rest', st') \<Rightarrow> Inr (c # rest', st'))
      else
        (case changeProp_inner key val (children c) st of
           Inl e \<Rightarrow> Inl e
         | Inr (cs', st1) \<Rightarrow>
             (case changeProp_outer key val rest st1 of
                Inl e \<Rightarrow> Inl e
              | Inr (rest', st') \<Rightarrow> Inr (set_children cs' c # rest', st'))))"

text \<open>
  The element that \<^verbatim>\<open>changeProp\<close> adds when no property of that name was found, and where
  it adds it: \<^verbatim>\<open>ET.SubElement(props, ...)\<close> with the loop variable \<^verbatim>\<open>props\<close> as the outer
  loop left it, which is the last \<^verbatim>\<open>properties\<close> child. When the node has none the
  variable was never bound (\<^verbatim>\<open>UnboundLocalError\<close>, here \<open>None\<close>).
\<close>

definition new_property :: "string \<Rightarrow> string \<Rightarrow> elem" where
  "new_property key v =
     Elem PROPERTY [(''readOnly'', ''false''), (''uri'', IVOAURL @ ''#'' @ key)] (Some v) []"

fun add_to_first_properties :: "elem \<Rightarrow> elem list \<Rightarrow> elem list option" where
  "add_to_first_properties new [] = None"
| "add_to_first_properties new (c # cs) =
     (if tag c = PROPERTIES then Some (set_children (children c @ [new]) c # cs)
      else map_option (\<lambda>cs'. c # cs') (add_to_first_properties new cs))"

definition add_to_last_properties :: "elem \<Rightarrow> elem list \<Rightarrow> elem list option" where
  "add_to_last_properties new cs = map_option rev (add_to_first_properties new (rev cs))"

definition changeProp :: "Node \<Rightarrow> string \<Rightarrow> string option \<Rightarrow> error + (int \<times> Node)" where
  "changeProp n key val =
     (case changeProp_outer key val (children (node (obj n))) (False, 0) of
        Inl e \<Rightarrow> Inl e
      | Inr (cs', found, changed) \<Rightarrow>
          (let n1 = upd_obj (\<lambda>ob. ob\<lparr>node := set_children cs' (node ob),
                         props := (if found \<and> val = None then (props ob)(Some key \<mapsto> None)
                                   else props ob)\<rparr>) n
           in if found \<or> val = None then Inr (changed, n1)
              else
                (case val of
                   None \<Rightarrow> Inr (changed, n1)
                 | Some v \<Rightarrow>
                     (case add_to_last_properties (new_property key v) cs' of
                        None \<Rightarrow> Inl (UnboundLocalError ''props'')
                      | Some cs'' \<Rightarrow>
                          Inr (1, upd_obj (\<lambda>ob. ob\<lparr>node := set_children cs'' (node ob)\<rparr>) n1)))))"

text \<open>\<^verbatim>\<open>setPublic\<close>, \<^verbatim>\<open>chrgrp\<close>, \<^verbatim>\<open>chwgrp\<close>.\<close>

definition setPublic :: "Node \<Rightarrow> string option \<Rightarrow> error + (int \<times> Node)" where
  "setPublic n v = changeProp n ''ispublic'' v"

definition chrgrp :: "Node \<Rightarrow> string option \<Rightarrow> error + (int \<times> Node)" where
  "chrgrp n grp = changeProp (upd_obj (\<lambda>ob. ob\<lparr>groupread := Some grp\<rparr>) n) ''groupread'' grp"

definition chwgrp :: "Node \<Rightarrow> string option \<Rightarrow> error + (int \<times> Node)" where
  "chwgrp n grp = changeProp (upd_obj (\<lambda>ob. ob\<lparr>groupwrite := Some grp\<rparr>) n) ''groupwrite'' grp"

text \<open>
  \<^verbatim>\<open>Node.chmod(mode)\<close>. Reading \<^verbatim>\<open>self.groupread\<close> or \<^verbatim>\<open>self.groupwrite\<close> on a node that
  \<^verbatim>\<open>update()\<close> left without them raises \<^verbatim>\<open>AttributeError\<close>.
\<close>

definition chmod :: "Node \<Rightarrow> int \<Rightarrow> error + (bool \<times> Node)" where
  "chmod n mode =
     (case (if mode AND S_IROTH \<noteq> 0 then setPublic n (Some ''true'')
            else setPublic n (Some ''false'')) of
        Inl e \<Rightarrow> Inl e
      | Inr (c1, n1) \<Rightarrow>
          (case (if mode AND S_IRGRP \<noteq> 0 then
                   (case groupread (obj n1) of
                      None \<Rightarrow> Inl AttributeError
                    | Some g \<Rightarrow> chrgrp n1 g)
                 else chrgrp n1 (Some [])) of
             Inl e \<Rightarrow> Inl e
           | Inr (c2, n2) \<Rightarrow>
               (case (if mode AND S_IWGRP \<noteq> 0 then
                        (case groupwrite (obj n2) of
                           None \<Rightarrow> Inl AttributeError
                         | Some g \<Rightarrow> chwgrp n2 g)
                      else chwgrp n2 (Some [])) of
                  Inl e \<Rightarrow> Inl e
                | Inr (c3, n3) \<Rightarrow> Inr (0 + c1 + c2 + c3 > 0, n3))))"

text \<open>
  The property elements that the loops of \<^verbatim>\<open>changeProp\<close> and \<^verbatim>\<open>update\<close> visit, in the
  order of the visit, and the test \<^verbatim>\<open>propName == key\<close> on one of them.
\<close>

definition all_properties :: "elem \<Rightarrow> elem list" where
  "all_properties e = concat (map (findall PROPERTY) (findall PROPERTIES e))"

definition named :: "string \<Rightarrow> elem \<Rightarrow> bool" where
  "named key prop = (getPropName prop = Inr (Some key))"

text \<open>
  The effect of the two loops of \<^verbatim>\<open>changeProp\<close> written as maps, for the statements below:
  what becomes of one visited property element, and of the children of the node's element
  when every visited property element is replaced by its image under \<open>g\<close>.
\<close>

definition changed_elem :: "string \<Rightarrow> string option \<Rightarrow> elem \<Rightarrow> elem" where
  "changed_elem key val p =
     (if named key p then (case val of None \<Rightarrow> mark_deleted p | Some v \<Rightarrow> set_etext (Some v) p)
      else p)"

definition apply_inner :: "(elem \<Rightarrow> elem) \<Rightarrow> elem list \<Rightarrow> elem list" where
  "apply_inner g ps = map (\<lambda>p. if tag p = PROPERTY then g p else p) ps"

definition apply_props :: "(elem \<Rightarrow> elem) \<Rightarrow> elem list \<Rightarrow> elem list" where
  "apply_props g cs =
     map (\<lambda>c. if tag c = PROPERTIES then set_children (apply_inner g (children c)) c else c) cs"

definition props_of :: "elem list \<Rightarrow> elem list" where
  "props_of cs = concat (map (\<lambda>c. filter (\<lambda>p. tag p = PROPERTY) (children c))
                               (filter (\<lambda>c. tag c = PROPERTIES) cs))"

section \<open>URI normalization: Client.fixURI\<close>

text \<open>\<^verbatim>\<open>str.split('/')\<close> and \<^verbatim>\<open>'/'.join(comps)\<close>.\<close>

fun split_slash :: "string \<Rightarrow> string list" where
  "split_slash [] = [[]]"
| "split_slash (c # cs) =
     (if c = CHR ''/'' then [] # split_slash cs
      else (case split_slash cs of [] \<Rightarrow> [[c]] | w # ws \<Rightarrow> (c # w) # ws))"






text \<open>
  The test of the leaf name, \<^verbatim>\<open>re.match("^[\_\-\(\)\=\+\!\,\;\:\@\&\*\$\.\w\~]*$", filename)\<close>:
  every character is in the class (\<^verbatim>\<open>\w\<close> is a letter, a digit or the underscore), and
  \<^verbatim>\<open>$\<close> also matches before a newline that ends the string.
\<close>

definition legal_char :: "char \<Rightarrow> bool" where
  "legal_char c = (isalpha c \<or> c \<in> set ''0123456789_-()=+!,;:@&*$.~'')"

definition legal_name :: "string \<Rightarrow> bool" where
  "legal_name f =
     (list_all legal_char f
      \<or> (f \<noteq> [] \<and> last f = CHR 0x0A \<and> list_all legal_char (butlast f)))"



text \<open>
  For the statements about \<^verbatim>\<open>fixURI\<close>: the string it returns for a host and a path, a path
  component that \<^verbatim>\<open>normpath\<close> keeps as a name, and where the path part of a URI starts.
\<close>

definition mk_uri :: "string \<Rightarrow> string \<Rightarrow> string" where
  "mk_uri host p = ''vos'' @ ''://'' @ host @ ''/'' @ p"



section \<open>Loading the children of a container: Client.getNode\<close>

text \<open>\<^verbatim>\<open>Node.isdir()\<close>.\<close>

definition isdir :: "Node \<Rightarrow> bool" where
  "isdir n = (type (obj n) = Some ''vos:ContainerNode'')"

text \<open>
  The two inner \<^verbatim>\<open>for\<close> loops of \<^verbatim>\<open>getNode\<close> over one page: the \<^verbatim>\<open>node\<close> elements under
  the \<^verbatim>\<open>nodes\<close> elements of the document, in order. The state is \<^verbatim>\<open>nextURI\<close>, the list
  \<^verbatim>\<open>node._nodeList\<close> and \<^verbatim>\<open>again\<close>. \<^verbatim>\<open>addChild\<close> builds the child node (which can
  raise) and appends it; reading \<^verbatim>\<open>childNode.uri\<close> raises \<^verbatim>\<open>AttributeError\<close> when
  \<^verbatim>\<open>update()\<close> never assigned it.
\<close>

fun page_children ::
    "elem list \<Rightarrow> string option \<times> Node list \<times> bool \<Rightarrow> error + (string option \<times> Node list \<times> bool)" where
  "page_children [] st = Inr st"
| "page_children (child # rest) (nextURI, nl, again) =
     (if eget child ''uri'' \<noteq> nextURI then
        (case Node_init child of
           Inl e \<Rightarrow> Inl e
         | Inr childNode \<Rightarrow>
             (case uri (obj childNode) of
                None \<Rightarrow> Inl AttributeError
              | Some u \<Rightarrow> page_children rest (Some u, nl @ [childNode], True)))
      else page_children rest (nextURI, nl, again))"

text \<open>
  The \<^verbatim>\<open>while again\<close> loop. \<open>srv k c\<close> is what the \<open>k\<close>-th request for children gives when
  it is sent with the cursor \<open>c\<close> (the \<^verbatim>\<open>uri\<close> parameter of the URL, absent for \<^verbatim>\<open>None\<close>):
  an exception of \<^verbatim>\<open>open\<close> or of the parser, or the root element of the document. The loop
  has no bound of its own, so the model counts iterations down from \<open>fuel\<close> and returns
  \<open>None\<close> when they run out. \<open>reqs\<close> is the list of the cursors sent so far.
\<close>

fun load_children ::
    "nat \<Rightarrow> (nat \<Rightarrow> string option \<Rightarrow> error + elem) \<Rightarrow> nat \<Rightarrow> string option \<times> Node list
       \<Rightarrow> string option list \<Rightarrow> (error + (Node list \<times> string option list)) option" where
  "load_children 0 srv k st reqs = None"
| "load_children (Suc fuel) srv k (nextURI, nl) reqs =
     (case srv k nextURI of
        Inl e \<Rightarrow> Some (Inl e)
      | Inr doc \<Rightarrow>
          (case page_children (child_elems doc) (nextURI, nl, False) of
             Inl e \<Rightarrow> Some (Inl e)
           | Inr (nextURI', nl', again) \<Rightarrow>
               if again then load_children fuel srv (Suc k) (nextURI', nl') (reqs @ [nextURI])
               else Some (Inr (nl', reqs @ [nextURI]))))"

text \<open>
  \<^verbatim>\<open>Client.getNode(uri, limit)\<close>: \<open>first\<close> is what the request for the node itself gives.
  The result is the node and the cursors of the requests for children.
\<close>

definition getNode ::
    "nat \<Rightarrow> error + elem \<Rightarrow> (nat \<Rightarrow> string option \<Rightarrow> error + elem) \<Rightarrow> int
       \<Rightarrow> (error + (Node \<times> string option list)) option" where
  "getNode fuel first srv limit =
     (case first of
        Inl e \<Rightarrow> Some (Inl e)
      | Inr root \<Rightarrow>
          (case Node_init root of
             Inl e \<Rightarrow> Some (Inl e)
           | Inr n \<Rightarrow>
               if isdir n \<and> limit > 0 then
                 (case load_children fuel srv 0 (None, []) [] of
                    None \<Rightarrow> None
                  | Some (Inl e) \<Rightarrow> Some (Inl e)
                  | Some (Inr (nl, reqs)) \<Rightarrow> Some (Inr (set_nodeList (Some nl) n, reqs)))
               else Some (Inr (n, []))))"

text \<open>
  For the statements: the URIs that one page lists, those of the pages that a run of
  requests received (the \<open>k\<close>-th request first), and the URIs of a list of nodes.
\<close>

definition page_uris :: "error + elem \<Rightarrow> string option list" where
  "page_uris r = (case r of Inl e \<Rightarrow> [] | Inr doc \<Rightarrow> map (\<lambda>c. eget c ''uri'') (child_elems doc))"

fun seen_uris :: "(nat \<Rightarrow> string option \<Rightarrow> error + elem) \<Rightarrow> nat \<Rightarrow> string option list \<Rightarrow> string option list" where
  "seen_uris srv k [] = []"
| "seen_uris srv k (c # cs) = page_uris (srv k c) @ seen_uris srv (Suc k) cs"

definition node_uris :: "Node list \<Rightarrow> string option list" where
  "node_uris nl = map (\<lambda>n. uri (obj n)) nl"

text \<open>
  The cursors of a run of requests follow each other: the page of every request but the last
  adds a child, and the next request carries the URI listed last on it (which is the URI
  of the child appended last); the page of the last request adds none.
\<close>

fun cursor_chain :: "(nat \<Rightarrow> string option \<Rightarrow> error + elem) \<Rightarrow> nat \<Rightarrow> string option \<Rightarrow> string option list \<Rightarrow> bool" where
  "cursor_chain srv k c [] = (tl (remdups_adj (c # page_uris (srv k c))) = [])"
| "cursor_chain srv k c (c1 # cs) =
     (tl (remdups_adj (c # page_uris (srv k c))) \<noteq> [] \<and> c1 = last (c # page_uris (srv k c))
      \<and> cursor_chain srv (Suc k) c1 cs)"

text \<open>
  A child element builds when \<^verbatim>\<open>Node(child)\<close> returns a node that has a URI. A run of
  requests is answered when each of them (the \<open>k\<close>-th first) gets a document all of whose
  listed children build.
\<close>

definition builds :: "elem \<Rightarrow> bool" where
  "builds ch = (case Node_init ch of Inl e \<Rightarrow> False | Inr cn \<Rightarrow> uri (obj cn) \<noteq> None)"

fun answered :: "(nat \<Rightarrow> string option \<Rightarrow> error + elem) \<Rightarrow> nat \<Rightarrow> string option list \<Rightarrow> bool" where
  "answered srv k [] = True"
| "answered srv k (c # cs) =
     ((case srv k c of Inl e \<Rightarrow> False | Inr doc \<Rightarrow> list_all builds (child_elems doc))
      \<and> answered srv (Suc k) cs)"

section \<open>Inputs of the examples\<close>

definition demo_file :: VOFile where
  "demo_file =
     \<lparr>closed = False, resp = RespInt 503,
      httpCon = Some \<lparr>sent = [], reply = Inl (HTTPException ''no answer''), con_closed = False\<rparr>,
      size' = PyInt 100, name' = ''hello.txt'', fpos = 7,
      url = ''https://www.cadc.hia.nrc.gc.ca/vospace/nodes/demo/hello.txt''\<rparr>"


definition demo_env :: copy_env where
  "demo_env =
     \<lparr>srcSize = 6, reads = [''hel'', ''lo!'', [], ''never read''],
      src_props = [Some ''MD5'' \<mapsto> Some ''0123''], dest_props = Map.empty\<rparr>"

definition demo_H :: "string \<Rightarrow> string" where
  "demo_H s = (if s = ''hello!'' then ''0123'' else ''ffff'')"

text \<open>
  A property element as the service sends it, and a data node with the three access
  properties: \<^verbatim>\<open>ispublic\<close> is \<^verbatim>\<open>false\<close>, both groups are \<open>X\<close>.
\<close>

definition property_elem :: "string \<Rightarrow> string \<Rightarrow> elem" where
  "property_elem key v =
     Elem PROPERTY [(''uri'', IVOAURL @ ''#'' @ key), (''readOnly'', ''false'')] (Some v) []"

definition data_node_elem :: "string \<Rightarrow> string \<Rightarrow> elem" where
  "data_node_elem u X =
     Elem NODE [(Node_TYPE, ''vos:DataNode''), (''uri'', u)] None
       [Elem PROPERTIES [] None
          [property_elem ''ispublic'' ''false'', property_elem ''groupread'' X,
           property_elem ''groupwrite'' X]]"

text \<open>The node object that \<^verbatim>\<open>Node(...)\<close> builds from that element.\<close>

definition data_node :: "string \<Rightarrow> string \<Rightarrow> Node" where
  "data_node u X =
     Node \<lparr>node =
             Elem NODE [(Node_TYPE, ''vos:DataNode''), (''uri'', u), (''xmlns:vos'', VOSNS)] None
               [Elem PROPERTIES [] None
                  [property_elem ''ispublic'' ''false'', property_elem ''groupread'' X,
                   property_elem ''groupwrite'' X]],
           type = Some ''vos:DataNode'', uri = Some u, name = Some (basename u),
           props = [Some ''ispublic'' \<mapsto> Some ''false'', Some ''groupread'' \<mapsto> Some X,
                    Some ''groupwrite'' \<mapsto> Some X],
           isPublic = Some False, groupwrite = Some (Some X), groupread = Some (Some X),
           attr = [(''st_nlink'', 1),
                   (''st_mode'', if X = ''NONE'' then S_IFREG OR 448 else S_IFREG OR 504)],
           xattr = Map.empty\<rparr> None"

text \<open>A data node whose element has two \<^verbatim>\<open>properties\<close> children.\<close>

definition two_properties_elem :: elem where
  "two_properties_elem =
     Elem NODE [(Node_TYPE, ''vos:DataNode''), (''uri'', ''vos://cadc.nrc.ca!vospace/demo/a'')] None
       [Elem PROPERTIES [] None [property_elem ''ispublic'' ''true''],
        Elem PROPERTIES [] None []]"

definition demo_uri :: string where
  "demo_uri = ''vos://cadc.nrc.ca!vospace/demo/hello.txt''"

text \<open>
  A child element as a page lists it, the document of a container with the listed children,
  and two services. The first pages a listing of three children two at a time, each page
  starting at the requested URI. The second lists the first child again on its second
  page.
\<close>

definition child_elem :: "string \<Rightarrow> elem" where
  "child_elem u = Elem NODE [(Node_TYPE, ''vos:DataNode''), (''uri'', u)] None []"

definition container_doc :: "string list \<Rightarrow> elem" where
  "container_doc us =
     Elem NODE [(Node_TYPE, ''vos:ContainerNode''), (''uri'', ''vos://cadc.nrc.ca!vospace/demo'')] None
       [Elem NODES [] None (map child_elem us)]"

definition paging_service :: "nat \<Rightarrow> string option \<Rightarrow> error + elem" where
  "paging_service k c =
     Inr (container_doc
       (if c = None then [''vos://cadc.nrc.ca!vospace/demo/a'', ''vos://cadc.nrc.ca!vospace/demo/b'']
        else if c = Some ''vos://cadc.nrc.ca!vospace/demo/b''
          then [''vos://cadc.nrc.ca!vospace/demo/b'', ''vos://cadc.nrc.ca!vospace/demo/c'']
        else if c = Some ''vos://cadc.nrc.ca!vospace/demo/c'' then [''vos://cadc.nrc.ca!vospace/demo/c'']
        else []))"

definition repeating_service :: "nat \<Rightarrow> string option \<Rightarrow> error + elem" where
  "repeating_service k c =
     Inr (container_doc
       (if c = None then [''vos://cadc.nrc.ca!vospace/demo/a'', ''vos://cadc.nrc.ca!vospace/demo/b'']
        else if c = Some ''vos://cadc.nrc.ca!vospace/demo/b''
          then [''vos://cadc.nrc.ca!vospace/demo/b'', ''vos://cadc.nrc.ca!vospace/demo/a'']
        else [''vos://cadc.nrc.ca!vospace/demo/a'']))"

section \<open>Properties of the transport stream\<close>

lemma seek_frame:
  "seek f offset loc = Inr f' \<Longrightarrow> \<exists>p. f' = f\<lparr>fpos := p\<rparr>"
proof (cases "loc = SEEK_CUR \<or> loc = SEEK_SET")
  case True
  assume "seek f offset loc = Inr f'"
  with True show ?thesis by (auto simp: seek_def split: if_splits)
next
  case False
  assume r: "seek f offset loc = Inr f'"
  show ?thesis
  proof (cases "loc = SEEK_END")
    case True
    with False r show ?thesis
      by (cases "size' f") (auto simp: seek_def)
  next
    case no_end: False
    with False r have "f' = f" by (simp add: seek_def)
    then have "f' = f\<lparr>fpos := fpos f\<rparr>" by simp
    then show ?thesis by blast
  qed
qed



lemma seek_demo_file:
  "seek demo_file 30 SEEK_END = Inr (demo_file\<lparr>fpos := 70\<rparr>)"
  "seek demo_file 30 SEEK_CUR = Inr (demo_file\<lparr>fpos := 37\<rparr>)"
  "seek demo_file 30 SEEK_SET = Inr (demo_file\<lparr>fpos := 30\<rparr>)"
  by (simp_all add: demo_file_def seek_def SEEK_SET_def SEEK_CUR_def SEEK_END_def)

text \<open>
  C3 at a 416 response. \<^verbatim>\<open>close()\<close> passes its own default tuple, which has no 416, to
  \<^verbatim>\<open>checkstatus\<close>, so the default of \<^verbatim>\<open>checkstatus\<close> (which has 416) is never used by
  \<^verbatim>\<open>close()\<close>: closing an open file whose server answers 416 raises the general I/O error
  with the status, the body and the URL.
\<close>

theorem close_416_raises:
  "close (f\<lparr>closed := False,
            httpCon := Some (c\<lparr>reply := Inr (r\<lparr>status := 416\<rparr>)\<rparr>)\<rparr>) close_default
     = Inl (IOError 416 (body r) (PyStr (url f)))"
  by (simp add: close_def close_exchange_def checkstatus_def close_default_def resp_read_def
      Let_def)

lemma checkstatus_default_accepts_416:
  "checkstatus (f\<lparr>resp := Resp (r\<lparr>status := 416\<rparr>)\<rparr>) checkstatus_default
     = Inr (True, f\<lparr>resp := Resp (r\<lparr>status := 416\<rparr>),
                      size' := getheader r ''content-length'' (PyInt 0)\<rparr>)"
  by (simp add: checkstatus_def checkstatus_default_def getheader_def)

lemma close_default_accepts:
  "s \<in> set close_default \<Longrightarrow>
   close (f\<lparr>closed := False,
            httpCon := Some (c\<lparr>reply := Inr (r\<lparr>status := s\<rparr>)\<rparr>)\<rparr>) close_default
     = Inr (Some True,
            f\<lparr>closed := True, resp := Resp (r\<lparr>status := s\<rparr>),
              httpCon := Some (c\<lparr>sent := sent c @ [[CHR ''0'', CHR 0x0D, CHR 0x0A, CHR 0x0D, CHR 0x0A]],
                                 reply := Inr (r\<lparr>status := s\<rparr>), con_closed := True\<rparr>),
              size' := getheader r ''content-length'' (PyInt 0)\<rparr>)"
  by (simp add: close_def close_exchange_def checkstatus_def Let_def getheader_def)

lemma close_rejected:
  "close (f\<lparr>closed := False,
            httpCon := Some (c\<lparr>reply := Inr (r\<lparr>status := 404\<rparr>)\<rparr>)\<rparr>) close_default
     = Inl (IOError ENOENT ''Node not found'' (PyStr (url f)))"
  "close (f\<lparr>closed := False,
            httpCon := Some (c\<lparr>reply := Inr (r\<lparr>status := 401\<rparr>)\<rparr>)\<rparr>) close_default
     = Inl (IOError EACCES ''Not authorized'' (PyStr (url f)))"
  "re_search_literal ''DuplicateNode'' (body r) \<Longrightarrow>
   close (f\<lparr>closed := False,
            httpCon := Some (c\<lparr>reply := Inr (r\<lparr>status := 409\<rparr>)\<rparr>)\<rparr>) close_default
     = Inl (OSError EEXIST ''File Exists'' (PyStr (url f)))"
  "s \<notin> set close_default \<Longrightarrow> s \<notin> {404, 401, 409} \<Longrightarrow>
   close (f\<lparr>closed := False,
            httpCon := Some (c\<lparr>reply := Inr (r\<lparr>status := s\<rparr>)\<rparr>)\<rparr>) close_default
     = Inl (IOError s (body r) (PyStr (url f)))"
  by (simp_all add: close_def close_exchange_def checkstatus_def close_default_def resp_read_def
      Let_def)

lemma close_twice:
  "close (f\<lparr>closed := True\<rparr>) code = Inr (None, f\<lparr>closed := True\<rparr>)"
  by (simp add: close_def)

section \<open>Properties of the client facade\<close>

text \<open>
  C9. A string-valued mode is replaced by \<^verbatim>\<open>O_RDONLY\<close> before the method is chosen: the
  method is \<^verbatim>\<open>GET\<close> whatever the string says, and \<^verbatim>\<open>HEAD\<close> when \<^verbatim>\<open>head\<close> is set.
\<close>

theorem open_string_mode_is_read_only:
  "open_method (ModeStr s) head = Inr (if head then ''HEAD'' else ''GET'')"
  by (simp add: open_method_def)

section \<open>Properties of the streaming copy\<close>

lemma copy_loop_eq:
  "copy_loop bufs (out, fed, n) =
     (out @ takeWhile (\<lambda>b. b \<noteq> []) bufs,
      fed @ concat (takeWhile (\<lambda>b. b \<noteq> []) bufs),
      n + int (length (concat (takeWhile (\<lambda>b. b \<noteq> []) bufs))))"
  by (induction bufs arbitrary: out fed n) auto

text \<open>
  C2. The buffers written are those read up to the first empty one, and what the MD5 object
  was fed is their concatenation \<open>data\<close>. With \<^verbatim>\<open>sendMD5\<close> the stored \<^verbatim>\<open>MD5\<close> property of
  the remote node (of \<^verbatim>\<open>src\<close> when it starts with \<^verbatim>\<open>vos:\<close>, of \<^verbatim>\<open>dest\<close> otherwise; the
  digest of the empty string when the node has none) is compared with the digest of
  \<open>data\<close>: the digest is returned when they agree and an error with \<^verbatim>\<open>errno.EIO\<close> is
  raised when they differ. Without \<^verbatim>\<open>sendMD5\<close> the number of bytes written is compared
  with the size of the source in the same way and the count is returned.
\<close>

theorem copy_verifies_transfer:
  "copy H env src dest sendMD5 =
     (let written = takeWhile (\<lambda>b. b \<noteq> []) (reads env);
          data = concat written;
          stored = props_get (if take 4 src = ''vos:'' then src_props env else dest_props env)
                     ''MD5'' (Some ''d41d8cd98f00b204e9800998ecf8427e'')
      in if sendMD5 then
           (if stored = Some (H data) then Inr (PyStr (H data), written)
            else Inl (OSError EIO ''MD5s don't match'' (PyStr src)))
         else
           (if int (length data) = srcSize env then Inr (PyInt (int (length data)), written)
            else Inl (IOError EIO ''sizes don't match'' (PyStr src))))"
  by (simp add: copy_def copy_loop_eq default_MD5_def Let_def)

lemma copy_demo_download:
  "copy demo_H demo_env ''vos://x/a'' ''/tmp/out'' True = Inr (PyStr ''0123'', [''hel'', ''lo!''])"
  by (simp add: copy_def demo_env_def demo_H_def props_get_def)

lemma copy_demo_upload_no_stored_MD5:
  "copy demo_H demo_env ''/tmp/in'' ''vos://x/a'' True
     = Inl (OSError EIO ''MD5s don't match'' (PyStr ''/tmp/in''))"
  by (simp add: copy_def demo_env_def demo_H_def props_get_def default_MD5_def)

section \<open>Properties of the credential holder\<close>

text \<open>
  C7 at a transport failure. When the first \<^verbatim>\<open>connect()\<close> raises an
  \<^verbatim>\<open>HTTPException\<close>, \<^verbatim>\<open>getConnection\<close> raises \<^verbatim>\<open>NameError\<close> at once, whatever the clock
  reads and whatever later attempts would do: nothing is retried.
\<close>

theorem getConnection_HTTPException_not_retried:
  "getConnection u (attempt(0 := RaisesHTTP e)) clock = Inl (NameError ''logggin'')"
  by (simp add: getConnection_def Let_def)

lemma getConnection_other_exception:
  "getConnection u (attempt(0 := RaisesOther e)) clock
     = Inl (IOError ECONNREFUSED ''VOSpace connection failed'' (opt_str (netloc (urlparse u))))"
  by (simp add: getConnection_def Let_def)

section \<open>Properties of the node model\<close>

lemma tags_distinct [simp]:
  "PROPERTY \<noteq> PROPERTIES" "PROPERTIES \<noteq> PROPERTY" "NODE \<noteq> NODES" "NODES \<noteq> NODE"
  "PROPERTIES \<noteq> NODES" "NODES \<noteq> PROPERTIES" "PROPERTIES \<noteq> NODE" "NODE \<noteq> PROPERTIES"
  by (simp_all add: PROPERTY_def PROPERTIES_def NODE_def NODES_def)

lemma splittag_IVOAURL:
  "CHR ''#'' \<notin> set key \<Longrightarrow> splittag (IVOAURL @ CHR ''#'' # key) = (IVOAURL, Some key)"
proof -
  assume k: "CHR ''#'' \<notin> set key"
  have tw: "takeWhile (\<lambda>c. c \<noteq> CHR ''#'') (rev key @ CHR ''#'' # rev IVOAURL) = rev key"
    using k by (simp add: takeWhile_append)
  have dw: "dropWhile (\<lambda>c. c \<noteq> CHR ''#'') (rev key @ CHR ''#'' # rev IVOAURL) = CHR ''#'' # rev IVOAURL"
    using k by (simp add: dropWhile_append)
  have nl: "CHR 0x0A \<notin> set IVOAURL" by (simp add: IVOAURL_def)
  show ?thesis
    using tw dw nl by (simp add: splittag_def)
qed

lemma getPropName_property_elem:
  "CHR ''#'' \<notin> set key \<Longrightarrow> getPropName (property_elem key v) = Inr (Some key)"
  by (simp add: getPropName_def property_elem_def eget_def splittag_IVOAURL)

lemma tag_property_elem [simp]: "tag (property_elem k v) = PROPERTY"
  by (simp add: property_elem_def)

lemma etext_property_elem [simp]: "etext (property_elem k v) = Some v"
  by (simp add: property_elem_def)

lemma data_node_props:
  "setProps_all [Elem PROPERTIES [] None
                  [property_elem ''ispublic'' a, property_elem ''groupread'' b,
                   property_elem ''groupwrite'' c]] ps
        = Inr (ps(Some ''ispublic'' \<mapsto> Some a, Some ''groupread'' \<mapsto> Some b,
                    Some ''groupwrite'' \<mapsto> Some c))"
  by (simp add: findall_def setProps_def getPropName_property_elem getPropValue_def)

lemma update_from_data:
  assumes "eget (node (obj n)) Node_TYPE = Some t" and "t \<noteq> ''vos:ContainerNode''"
    and "eget (node (obj n)) ''uri'' = Some u"
    and "setProps_all (findall PROPERTIES (node (obj n))) (props (obj n)) = Inr ps"
  shows "update_from kids n =
     Inr (Node (setxattr ((obj n)\<lparr>type := Some t, uri := Some u, name := Some (basename u),
                   props := ps,
                   isPublic := Some (props_get ps ''ispublic'' (Some ''false'') = Some ''true''),
                   groupwrite := Some (props_get ps ''groupwrite'' (Some [])),
                   groupread := Some (props_get ps ''groupread'' (Some [])),
                   attr := [(''st_nlink'', 1),
                            (''st_mode'', st_mode ((obj n)\<lparr>type := Some t, props := ps\<rparr>))]\<rparr>))
            (nodeList n))"
  using assms by (simp add: update_from_def setattr_def upd_obj_def st_mode_def)

lemma st_mode_data:
  "type ob = Some t \<Longrightarrow> t \<noteq> ''vos:ContainerNode'' \<Longrightarrow>
   props ob = [Some ''ispublic'' \<mapsto> Some ''false'', Some ''groupread'' \<mapsto> Some R,
                         Some ''groupwrite'' \<mapsto> Some W] \<Longrightarrow>
   st_mode ob
     = (if W = ''NONE'' then if R = ''NONE'' then S_IFREG OR 448 else S_IFREG OR 488
        else if R = ''NONE'' then S_IFREG OR 464 else S_IFREG OR 504)"
  by (simp add: st_mode_def props_get_def Let_def
      S_IFREG_def S_IRUSR_def S_IWUSR_def S_IXUSR_def S_IRGRP_def S_IWGRP_def S_IXGRP_def)

lemma setxattr_id:
  assumes "\<And>k v. props ob k = Some v \<Longrightarrow> k \<in> Some ` set vosProperties"
  shows "setxattr ob = ob"
proof -
  have "xattr (setxattr ob) = xattr ob"
  proof (rule ext)
    fix k show "xattr (setxattr ob) k = xattr ob k"
      using assms [of k] by (cases "props ob k") (simp_all add: setxattr_def)
  qed
  then show ?thesis
    by (intro NodeObj.equality) (simp_all add: setxattr_def)
qed

lemma setxattr_access_props:
  "props ob = [Some ''ispublic'' \<mapsto> a, Some ''groupread'' \<mapsto> b, Some ''groupwrite'' \<mapsto> c]
   \<Longrightarrow> setxattr ob = ob"
  by (rule setxattr_id) (simp add: vosProperties_def split: if_splits)

lemma data_node_built: "Node_init (data_node_elem u X) = Inr (data_node u X)"
proof -
  have kids: "child_elems (data_node_elem u X) = []"
    by (simp add: child_elems_def findall_def data_node_elem_def)
  define n0 where "n0 = fresh (data_node_elem u X)"
  have nd: "node (obj n0) =
             Elem NODE [(Node_TYPE, ''vos:DataNode''), (''uri'', u), (''xmlns:vos'', VOSNS)] None
               [Elem PROPERTIES [] None
                  [property_elem ''ispublic'' ''false'', property_elem ''groupread'' X,
                   property_elem ''groupwrite'' X]]"
    by (simp add: n0_def fresh_def data_node_elem_def set_attrib_def Node_TYPE_def XSINS_def)
  have ty: "eget (node (obj n0)) Node_TYPE = Some ''vos:DataNode''"
    by (simp add: nd eget_def)
  have ur: "eget (node (obj n0)) ''uri'' = Some u"
    by (simp add: nd eget_def Node_TYPE_def XSINS_def)
  have ps: "setProps_all (findall PROPERTIES (node (obj n0))) (props (obj n0))
        = Inr [Some ''ispublic'' \<mapsto> Some ''false'', Some ''groupread'' \<mapsto> Some X,
                    Some ''groupwrite'' \<mapsto> Some X]"
    unfolding nd
    by (simp add: findall_def setProps_def getPropName_property_elem getPropValue_def n0_def fresh_def)
  have "update_from [] n0 = Inr (data_node u X)"
    apply (subst update_from_data [OF ty _ ur ps])
     apply simp
    apply (simp add: props_get_def st_mode_data setxattr_access_props)
    apply (simp add: n0_def fresh_def data_node_def data_node_elem_def set_attrib_def Node_TYPE_def XSINS_def)
    done
  then show ?thesis
    by (subst Node_init.simps) (simp add: kids n0_def)
qed


lemma set_etext_property_elem [simp]: "set_etext (Some v) (property_elem k w) = property_elem k v"
  by (simp add: set_etext_def property_elem_def)

lemma changeProp_data_node:
  assumes "node ob = Elem NODE a None [Elem PROPERTIES [] None
                  [property_elem ''ispublic'' p, property_elem ''groupread'' r,
                   property_elem ''groupwrite'' w]]"
  shows "changeProp (Node ob l) ''ispublic'' (Some v) =
           Inr (1, Node (ob\<lparr>node := Elem NODE a None [Elem PROPERTIES [] None
                  [property_elem ''ispublic'' v, property_elem ''groupread'' r,
                   property_elem ''groupwrite'' w]]\<rparr>) l)"
    and "changeProp (Node ob l) ''groupread'' (Some v) =
           Inr (1, Node (ob\<lparr>node := Elem NODE a None [Elem PROPERTIES [] None
                  [property_elem ''ispublic'' p, property_elem ''groupread'' v,
                   property_elem ''groupwrite'' w]]\<rparr>) l)"
    and "changeProp (Node ob l) ''groupwrite'' (Some v) =
           Inr (1, Node (ob\<lparr>node := Elem NODE a None [Elem PROPERTIES [] None
                  [property_elem ''ispublic'' p, property_elem ''groupread'' r,
                   property_elem ''groupwrite'' v]]\<rparr>) l)"
  using assms
  by (simp_all add: changeProp_def getPropName_property_elem upd_obj_def set_children_def)

lemma chmod_750_data_node:
  "chmod (data_node u X) 488 =
     Inr (True, upd_obj (\<lambda>ob. ob\<lparr>node := Elem NODE [(Node_TYPE, ''vos:DataNode''), (''uri'', u), (''xmlns:vos'', VOSNS)] None
          [Elem PROPERTIES [] None
                  [property_elem ''ispublic'' ''false'', property_elem ''groupread'' X,
                   property_elem ''groupwrite'' []]], groupwrite := Some (Some [])\<rparr>) (data_node u X))"
  by (simp add: chmod_def setPublic_def chrgrp_def chwgrp_def data_node_def upd_obj_def
      changeProp_data_node S_IROTH_def S_IRGRP_def S_IWGRP_def)

subsection \<open>The loops of changeProp\<close>

lemma all_properties_props_of: "all_properties e = props_of (children e)"
  by (simp add: all_properties_def props_of_def findall_def [abs_def])

lemma inner_eq:
  "list_all (\<lambda>p. eget p ''uri'' \<noteq> None) (filter (\<lambda>p. tag p = PROPERTY) ps) \<Longrightarrow>
   changeProp_inner key val ps (f, c) =
     Inr (apply_inner (changed_elem key val) ps,
          f \<or> list_ex (named key) (filter (\<lambda>p. tag p = PROPERTY) ps),
          if val \<noteq> None \<and> list_ex (named key) (filter (\<lambda>p. tag p = PROPERTY) ps) then 1 else c)"
proof (induction ps arbitrary: f c)
  case Nil
  then show ?case by (simp add: apply_inner_def)
next
  case (Cons p ps)
  show ?case
  proof (cases "tag p = PROPERTY")
    case False
    with Cons show ?thesis by (simp add: apply_inner_def)
  next
    case True
    with Cons.prems obtain u where u: "eget p ''uri'' = Some u" by auto
    from True Cons.prems have rest: "list_all (\<lambda>p. eget p ''uri'' \<noteq> None) (filter (\<lambda>p. tag p = PROPERTY) ps)"
      by simp
    show ?thesis
    proof (cases "named key p")
      case n: True
      then show ?thesis
        using True u Cons.IH [OF rest]
        by (cases val) (auto simp: apply_inner_def changed_elem_def named_def getPropName_def)
    next
      case n: False
      then show ?thesis
        using True u Cons.IH [OF rest]
        by (auto simp: apply_inner_def changed_elem_def named_def getPropName_def)
    qed
  qed
qed

lemma outer_eq:
  "list_all (\<lambda>p. eget p ''uri'' \<noteq> None) (props_of cs) \<Longrightarrow>
   changeProp_outer key val cs (f, c) =
     Inr (apply_props (changed_elem key val) cs,
          f \<or> list_ex (named key) (props_of cs),
          if val \<noteq> None \<and> list_ex (named key) (props_of cs) then 1 else c)"
proof (induction cs arbitrary: f c)
  case Nil
  then show ?case by (simp add: apply_props_def props_of_def)
next
  case (Cons a cs)
  show ?case
  proof (cases "tag a = PROPERTIES")
    case False
    with Cons show ?thesis by (simp add: apply_props_def props_of_def)
  next
    case True
    from True Cons.prems
    have h: "list_all (\<lambda>p. eget p ''uri'' \<noteq> None) (filter (\<lambda>p. tag p = PROPERTY) (children a))"
      and t: "list_all (\<lambda>p. eget p ''uri'' \<noteq> None) (props_of cs)"
      by (simp_all add: props_of_def)
    show ?thesis
      using True inner_eq [OF h] Cons.IH [OF t]
      by (auto simp: apply_props_def props_of_def)
  qed
qed


lemma getPropName_set_etext [simp]: "getPropName (set_etext x p) = getPropName p"
  by (simp add: getPropName_def set_etext_def eget_def)

lemma map_of_dict_set_other: "k' \<noteq> k \<Longrightarrow> map_of (dict_set k v kvs) k' = map_of kvs k'"
  by (induction kvs) auto

lemma map_of_dict_set_same: "map_of (dict_set k v kvs) k = Some v"
  by (induction kvs) auto

lemma getPropName_mark_deleted [simp]: "getPropName (mark_deleted p) = getPropName p"
  by (simp add: getPropName_def mark_deleted_def set_etext_def set_attrib_def eget_def
      map_of_dict_set_other)

lemma mark_deleted_marks:
  "eget (mark_deleted p) ''xsi:nil'' = Some ''true'' \<and> etext (mark_deleted p) = Some []
   \<and> tag (mark_deleted p) = tag p \<and> children (mark_deleted p) = children p"
  by (simp add: mark_deleted_def set_etext_def set_attrib_def eget_def map_of_dict_set_same)

lemma tag_changed_elem [simp]: "tag (changed_elem key val p) = tag p"
  by (cases val) (simp_all add: changed_elem_def mark_deleted_def set_etext_def set_attrib_def)

lemma named_changed_elem [simp]: "named k (changed_elem key val p) = named k p"
  by (cases val) (simp_all add: changed_elem_def named_def)

lemma props_of_apply_props:
  "(\<And>p. tag (g p) = tag p) \<Longrightarrow> props_of (apply_props g cs) = map g (props_of cs)"
proof (induction cs)
  case Nil
  then show ?case by (simp add: props_of_def apply_props_def)
next
  case (Cons c cs)
  have "\<And>ps. filter (\<lambda>p. tag p = PROPERTY) (apply_inner g ps)
                = map g (filter (\<lambda>p. tag p = PROPERTY) ps)"
  proof -
    fix ps show "filter (\<lambda>p. tag p = PROPERTY) (apply_inner g ps)
                = map g (filter (\<lambda>p. tag p = PROPERTY) ps)"
      using Cons.prems by (induction ps) (auto simp: apply_inner_def)
  qed
  then have inner: "filter (\<lambda>p. tag p = PROPERTY) (apply_inner g (children c))
                = map g (filter (\<lambda>p. tag p = PROPERTY) (children c))" .
  from Cons show ?case
    using inner by (auto simp: props_of_def apply_props_def set_children_def)
qed


lemma properties_of_apply_props:
  "filter (\<lambda>c. tag c = PROPERTIES) (apply_props g cs)
     = map (\<lambda>c. set_children (apply_inner g (children c)) c) (filter (\<lambda>c. tag c = PROPERTIES) cs)"
  by (induction cs) (auto simp: apply_props_def set_children_def)

lemma apply_props_id:
  "list_all (\<lambda>p. g p = p) (props_of cs) \<Longrightarrow> apply_props g cs = cs"
proof (induction cs)
  case Nil
  then show ?case by (simp add: apply_props_def)
next
  case (Cons c cs)
  have inner: "\<And>ps. list_all (\<lambda>p. g p = p) (filter (\<lambda>p. tag p = PROPERTY) ps) \<Longrightarrow> apply_inner g ps = ps"
  proof -
    fix ps show "list_all (\<lambda>p. g p = p) (filter (\<lambda>p. tag p = PROPERTY) ps) \<Longrightarrow> apply_inner g ps = ps"
      by (induction ps) (auto simp: apply_inner_def)
  qed
  have sc: "set_children (children c) c = c" by (cases c) (simp add: set_children_def)
  from Cons have t: "apply_props g cs = cs" by (auto simp: props_of_def split: if_splits)
  show ?case
  proof (cases "tag c = PROPERTIES")
    case True
    with Cons.prems have "apply_inner g (children c) = children c"
      by (intro inner) (simp add: props_of_def)
    with True t sc show ?thesis by (simp add: apply_props_def)
  next
    case False
    with t show ?thesis by (simp add: apply_props_def)
  qed
qed

lemma setProps_loop_append:
  "setProps_loop (xs @ ys) m =
     (case setProps_loop xs m of Inl e \<Rightarrow> Inl e | Inr m' \<Rightarrow> setProps_loop ys m')"
  by (induction xs arbitrary: m) (auto split: sum.splits)

lemma setProps_all_flat:
  "setProps_all pes m = setProps_loop (concat (map (findall PROPERTY) pes)) m"
  by (induction pes arbitrary: m) (auto simp: setProps_def setProps_loop_append split: sum.splits)

lemma setProps_loop_total:
  "list_all (\<lambda>p. eget p ''uri'' \<noteq> None) ps \<Longrightarrow> \<exists>m'. setProps_loop ps m = Inr m'"
  by (induction ps arbitrary: m) (auto simp: getPropName_def)

lemma setProps_loop_last:
  "setProps_loop ps m = Inr m' \<Longrightarrow> list_all (\<lambda>p. named k p \<longrightarrow> etext p = x) ps \<Longrightarrow>
   m (Some k) = Some x \<or> list_ex (named k) ps \<Longrightarrow> m' (Some k) = Some x"
proof (induction ps arbitrary: m)
  case Nil
  then show ?case by simp
next
  case (Cons p ps)
  from Cons.prems(1) obtain kk where kk: "getPropName p = Inr kk"
    and rest: "setProps_loop ps (m(kk \<mapsto> getPropValue p)) = Inr m'"
    by (auto split: sum.splits)
  have "(m(kk \<mapsto> getPropValue p)) (Some k) = Some x \<or> list_ex (named k) ps"
    using Cons.prems(2,3) kk unfolding named_def [abs_def] by (auto simp: getPropValue_def)
  with Cons.IH [OF rest] Cons.prems(2) show ?case by simp
qed

lemma add_to_first_properties_some:
  "filter (\<lambda>c. tag c = PROPERTIES) cs = pe # pes \<Longrightarrow>
   \<exists>cs'. add_to_first_properties new cs = Some cs'
     \<and> filter (\<lambda>c. tag c = PROPERTIES) cs' = set_children (children pe @ [new]) pe # pes
     \<and> filter (\<lambda>c. tag c \<noteq> PROPERTIES) cs' = filter (\<lambda>c. tag c \<noteq> PROPERTIES) cs"
proof (induction cs)
  case Nil
  then show ?case by simp
next
  case (Cons c cs)
  then show ?case by (cases "tag c = PROPERTIES") (auto simp: set_children_def)
qed

lemma add_to_first_properties_none:
  "filter (\<lambda>c. tag c = PROPERTIES) cs = [] \<Longrightarrow> add_to_first_properties new cs = None"
  by (induction cs) (auto split: if_splits)

lemma add_to_last_properties_some:
  assumes "filter (\<lambda>c. tag c = PROPERTIES) cs = pes @ [pe]"
  shows "\<exists>cs'. add_to_last_properties new cs = Some cs'
     \<and> filter (\<lambda>c. tag c = PROPERTIES) cs' = pes @ [set_children (children pe @ [new]) pe]"
proof -
  from assms have "filter (\<lambda>c. tag c = PROPERTIES) (rev cs) = pe # rev pes"
    by (simp add: rev_filter [symmetric])
  from add_to_first_properties_some [OF this, of new]
  obtain cs' where a: "add_to_first_properties new (rev cs) = Some cs'"
    and f: "filter (\<lambda>c. tag c = PROPERTIES) cs' = set_children (children pe @ [new]) pe # rev pes"
    by blast
  from f have "filter (\<lambda>c. tag c = PROPERTIES) (rev cs') = pes @ [set_children (children pe @ [new]) pe]"
    by (simp add: rev_filter [symmetric])
  with a show ?thesis by (simp add: add_to_last_properties_def)
qed

lemma add_to_last_properties_none:
  "filter (\<lambda>c. tag c = PROPERTIES) cs = [] \<Longrightarrow> add_to_last_properties new cs = None"
  by (simp add: add_to_last_properties_def add_to_first_properties_none rev_filter [symmetric])

lemma eget_uri_changed_elem [simp]: "eget (changed_elem key val p) ''uri'' = eget p ''uri''"
  by (cases val)
     (simp_all add: changed_elem_def mark_deleted_def set_etext_def set_attrib_def eget_def
        map_of_dict_set_other)

lemma set_children_children [simp]: "set_children (children e) e = e"
  by (cases e) (simp add: set_children_def)

lemma children_set_children [simp]: "children (set_children cs e) = cs"
  by (simp add: set_children_def)

lemma upd_obj_id [simp]: "upd_obj (\<lambda>ob. ob) n = n"
  by (cases n) (simp add: upd_obj_def)

lemma obj_upd_obj [simp]: "obj (upd_obj f n) = f (obj n)"
  by (simp add: upd_obj_def)

lemma changeProp_existing_set:
  assumes "list_all (\<lambda>p. eget p ''uri'' \<noteq> None) (all_properties (node (obj n)))"
    and "list_ex (named k) (all_properties (node (obj n)))"
  shows "changeProp n k (Some v) =
           Inr (1, upd_obj (\<lambda>ob. ob\<lparr>node := set_children
                  (apply_props (changed_elem k (Some v)) (children (node ob))) (node ob)\<rparr>) n)"
  using assms by (simp add: changeProp_def all_properties_props_of outer_eq upd_obj_def)

lemma changeProp_existing_delete:
  assumes "list_all (\<lambda>p. eget p ''uri'' \<noteq> None) (all_properties (node (obj n)))"
    and "list_ex (named k) (all_properties (node (obj n)))"
  shows "changeProp n k None =
           Inr (0, upd_obj (\<lambda>ob. ob\<lparr>node := set_children
                  (apply_props (changed_elem k None) (children (node ob))) (node ob),
                  props := (props ob)(Some k \<mapsto> None)\<rparr>) n)"
  using assms by (simp add: changeProp_def all_properties_props_of outer_eq upd_obj_def)

lemma apply_props_absent:
  assumes "\<not> list_ex (named k) (props_of cs)"
  shows "apply_props (changed_elem k val) cs = cs"
proof (rule apply_props_id)
  from assms show "list_all (\<lambda>p. changed_elem k val p = p) (props_of cs)"
    by (induction "props_of cs") (auto simp: changed_elem_def list_all_iff list_ex_iff)
qed

lemma changeProp_absent_delete:
  assumes "list_all (\<lambda>p. eget p ''uri'' \<noteq> None) (all_properties (node (obj n)))"
    and "\<not> list_ex (named k) (all_properties (node (obj n)))"
  shows "changeProp n k None = Inr (0, n)"
  using assms by (simp add: changeProp_def all_properties_props_of outer_eq apply_props_absent upd_obj_def)

lemma changeProp_absent_set:
  assumes "list_all (\<lambda>p. eget p ''uri'' \<noteq> None) (all_properties (node (obj n)))"
    and "\<not> list_ex (named k) (all_properties (node (obj n)))"
  shows "changeProp n k (Some v) =
     (case add_to_last_properties (new_property k v) (children (node (obj n))) of
        None \<Rightarrow> Inl (UnboundLocalError ''props'')
      | Some cs \<Rightarrow> Inr (1, upd_obj (\<lambda>ob. ob\<lparr>node := set_children cs (node ob)\<rparr>) n))"
  using assms
  by (simp add: changeProp_def all_properties_props_of outer_eq apply_props_absent upd_obj_def
      split: option.splits)


lemma all_properties_changed:
  "all_properties (set_children (apply_props (changed_elem k val) (children e)) e)
     = map (changed_elem k val) (all_properties e)"
  by (simp add: all_properties_props_of props_of_apply_props)

lemma setProps_all_node:
  "setProps_all (findall PROPERTIES e) m = setProps_loop (all_properties e) m"
  by (simp add: setProps_all_flat all_properties_def)

lemma etext_changed_elem:
  "named k p \<Longrightarrow> etext (changed_elem k (Some v) p) = Some v"
  by (simp add: changed_elem_def set_etext_def)

lemma changed_elem_set:
  "(\<lambda>p. if named k p then set_etext (Some v) p else p) = changed_elem k (Some v)"
  by (rule ext) (simp add: changed_elem_def)

lemma changed_elem_delete:
  "(\<lambda>p. if named k p then mark_deleted p else p) = changed_elem k None"
  by (rule ext) (simp add: changed_elem_def)

lemma readback_existing:
  assumes wf: "list_all (\<lambda>p. eget p ''uri'' \<noteq> None) (all_properties e)"
    and ex: "list_ex (named k) (all_properties e)"
  shows "\<exists>ps. setProps_all (findall PROPERTIES
                  (set_children (apply_props (changed_elem k (Some v)) (children e)) e)) ps0 = Inr ps
              \<and> ps (Some k) = Some (Some v)"
proof -
  let ?ps = "map (changed_elem k (Some v)) (all_properties e)"
  from wf have "list_all (\<lambda>p. eget p ''uri'' \<noteq> None) ?ps"
    by (simp add: list_all_iff)
  from setProps_loop_total [OF this, of ps0]
  obtain m' where m': "setProps_loop ?ps ps0 = Inr m'" by blast
  have a: "list_all (\<lambda>p. named k p \<longrightarrow> etext p = Some v) ?ps"
    by (simp add: list_all_iff etext_changed_elem)
  from ex have b: "list_ex (named k) ?ps" by (simp add: list_ex_iff)
  from setProps_loop_last [OF m' a] b have "m' (Some k) = Some (Some v)" by blast
  with m' show ?thesis by (simp add: setProps_all_node all_properties_changed)
qed

lemma tag_new_property [simp]: "tag (new_property k v) = PROPERTY"
  by (simp add: new_property_def)

lemma named_new_property: "CHR ''#'' \<notin> set k \<Longrightarrow> named k (new_property k v)"
  by (simp add: named_def getPropName_def new_property_def eget_def splittag_IVOAURL)

lemma readback_appended:
  assumes wf: "list_all (\<lambda>p. eget p ''uri'' \<noteq> None) (all_properties e)"
    and nx: "\<not> list_ex (named k) (all_properties e)"
    and old: "findall PROPERTIES e = pes @ [pe]"
    and new: "findall PROPERTIES e' = pes @ [set_children (children pe @ [new_property k v]) pe]"
    and k: "CHR ''#'' \<notin> set k"
  shows "\<exists>ps. setProps_all (findall PROPERTIES e') ps0 = Inr ps \<and> ps (Some k) = Some (Some v)"
proof -
  have ap: "all_properties e' = all_properties e @ [new_property k v]"
    using old new by (simp add: all_properties_def findall_def)
  have "list_all (\<lambda>p. eget p ''uri'' \<noteq> None) (all_properties e')"
    using wf by (simp add: ap) (simp add: new_property_def eget_def)
  from setProps_loop_total [OF this, of ps0]
  obtain m' where m': "setProps_loop (all_properties e') ps0 = Inr m'" by blast
  have a: "list_all (\<lambda>p. named k p \<longrightarrow> etext p = Some v) (all_properties e')"
    using nx by (simp add: ap list_all_iff list_ex_iff) (simp add: new_property_def)
  have b: "list_ex (named k) (all_properties e')"
    using k by (simp add: ap named_new_property)
  from setProps_loop_last [OF m' a] b have "m' (Some k) = Some (Some v)" by blast
  with m' show ?thesis by (simp add: setProps_all_node)
qed

text \<open>
  The property map kept in \<^verbatim>\<open>self.props\<close> is written by \<^verbatim>\<open>changeProp\<close> only in the
  branch that deletes: after a call with a value it is the map of before the call, and it
  follows the element again once \<^verbatim>\<open>update()\<close> has reloaded it.
\<close>

lemma changeProp_set_keeps_props:
  "changeProp n k (Some v) = Inr (r, n') \<Longrightarrow> props (obj n') = props (obj n)"
  by (auto simp: changeProp_def Let_def upd_obj_def split: sum.splits option.splits if_splits)

text \<open>
  What \<^verbatim>\<open>changeProp\<close> does to the element. For a node whose property elements all carry a
  \<^verbatim>\<open>uri\<close> attribute (without one \<^verbatim>\<open>splittag\<close> raises) and any key \<open>k\<close>:
  \<^item> when a property named \<open>k\<close> exists, \<^verbatim>\<open>changeProp(k, v)\<close> returns 1 and sets the text of
    every property element named \<open>k\<close> to \<open>v\<close>, leaving the other property elements as they
    were, and loading the properties again from the element (the loop of \<^verbatim>\<open>setProps\<close>,
    from any starting map) gives \<open>v\<close> for \<open>k\<close>; \<^verbatim>\<open>changeProp(k, None)\<close> returns 0, gives
    every property element named \<open>k\<close> the attribute \<^verbatim>\<open>xsi:nil="true"\<close> and the empty text,
    and maps \<open>k\<close> to \<^verbatim>\<open>None\<close> in the property map;
  \<^item> when no property named \<open>k\<close> exists, \<^verbatim>\<open>changeProp(k, None)\<close> returns 0 and leaves the
    node as it was, and \<^verbatim>\<open>changeProp(k, v)\<close> on a node with at least one \<^verbatim>\<open>properties\<close>
    element returns 1 and appends the new property element to the \<^verbatim>\<open>properties\<close> element
    that the loop variable was left on, the last one.
\<close>

lemma changeProp_effect:
  assumes wf: "list_all (\<lambda>p. eget p ''uri'' \<noteq> None) (all_properties (node (obj n)))"
  shows
    "(list_ex (named k) (all_properties (node (obj n))) \<longrightarrow>
        (\<exists>n'. changeProp n k (Some v) = Inr (1, n')
           \<and> all_properties (node (obj n'))
               = map (\<lambda>p. if named k p then set_etext (Some v) p else p) (all_properties (node (obj n)))
           \<and> (\<forall>ps0. \<exists>ps. setProps_all (findall PROPERTIES (node (obj n'))) ps0 = Inr ps
                  \<and> ps (Some k) = Some (Some v)))
      \<and> (\<exists>n'. changeProp n k None = Inr (0, n')
           \<and> all_properties (node (obj n'))
               = map (\<lambda>p. if named k p then mark_deleted p else p) (all_properties (node (obj n)))
           \<and> props (obj n') (Some k) = Some None))
     \<and> (\<not> list_ex (named k) (all_properties (node (obj n))) \<longrightarrow>
        changeProp n k None = Inr (0, n)
      \<and> (\<forall>pes pe. findall PROPERTIES (node (obj n)) = pes @ [pe] \<longrightarrow>
            (\<exists>n'. changeProp n k (Some v) = Inr (1, n')
               \<and> findall PROPERTIES (node (obj n'))
                   = pes @ [set_children (children pe @ [new_property k v]) pe]
               \<and> (CHR ''#'' \<notin> set k \<longrightarrow>
                    (\<forall>ps0. \<exists>ps. setProps_all (findall PROPERTIES (node (obj n'))) ps0 = Inr ps
                        \<and> ps (Some k) = Some (Some v))))))
     \<and> (\<forall>p. eget (mark_deleted p) ''xsi:nil'' = Some ''true'' \<and> etext (mark_deleted p) = Some [])"
proof (intro conjI impI allI)
  assume ex: "list_ex (named k) (all_properties (node (obj n)))"
  let ?n' = "upd_obj (\<lambda>ob. ob\<lparr>node := set_children
                  (apply_props (changed_elem k (Some v)) (children (node ob))) (node ob)\<rparr>) n"
  have "all_properties (node (obj ?n'))
               = map (changed_elem k (Some v)) (all_properties (node (obj n)))"
    by (simp add: all_properties_changed)
  moreover have "\<forall>ps0. \<exists>ps. setProps_all (findall PROPERTIES (node (obj ?n'))) ps0 = Inr ps
                  \<and> ps (Some k) = Some (Some v)"
    using readback_existing [OF wf ex] by simp
  ultimately show "\<exists>n'. changeProp n k (Some v) = Inr (1, n')
           \<and> all_properties (node (obj n'))
               = map (\<lambda>p. if named k p then set_etext (Some v) p else p) (all_properties (node (obj n)))
           \<and> (\<forall>ps0. \<exists>ps. setProps_all (findall PROPERTIES (node (obj n'))) ps0 = Inr ps
                  \<and> ps (Some k) = Some (Some v))"
    unfolding changed_elem_set using changeProp_existing_set [OF wf ex, of v] by blast
next
  assume ex: "list_ex (named k) (all_properties (node (obj n)))"
  let ?n' = "upd_obj (\<lambda>ob. ob\<lparr>node := set_children
                  (apply_props (changed_elem k None) (children (node ob))) (node ob),
                  props := (props ob)(Some k \<mapsto> None)\<rparr>) n"
  have "all_properties (node (obj ?n'))
               = map (changed_elem k None) (all_properties (node (obj n)))"
    by (simp add: all_properties_changed)
  moreover have "props (obj ?n') (Some k) = Some None" by simp
  ultimately show "\<exists>n'. changeProp n k None = Inr (0, n')
           \<and> all_properties (node (obj n'))
               = map (\<lambda>p. if named k p then mark_deleted p else p) (all_properties (node (obj n)))
           \<and> props (obj n') (Some k) = Some None"
    unfolding changed_elem_delete using changeProp_existing_delete [OF wf ex] by blast
next
  assume nx: "\<not> list_ex (named k) (all_properties (node (obj n)))"
  show "changeProp n k None = Inr (0, n)"
    by (rule changeProp_absent_delete [OF wf nx])
next
  fix pes pe
  assume nx: "\<not> list_ex (named k) (all_properties (node (obj n)))"
    and old: "findall PROPERTIES (node (obj n)) = pes @ [pe]"
  from old have "filter (\<lambda>c. tag c = PROPERTIES) (children (node (obj n))) = pes @ [pe]"
    by (simp add: findall_def)
  from add_to_last_properties_some [OF this, of "new_property k v"]
  obtain cs where cs: "add_to_last_properties (new_property k v) (children (node (obj n))) = Some cs"
    and f: "filter (\<lambda>c. tag c = PROPERTIES) cs = pes @ [set_children (children pe @ [new_property k v]) pe]"
    by blast
  let ?n' = "upd_obj (\<lambda>ob. ob\<lparr>node := set_children cs (node ob)\<rparr>) n"
  have c: "changeProp n k (Some v) = Inr (1, ?n')"
    using changeProp_absent_set [OF wf nx, of v] cs by simp
  have new: "findall PROPERTIES (node (obj ?n')) = pes @ [set_children (children pe @ [new_property k v]) pe]"
    using f by (simp add: findall_def)
  have "CHR ''#'' \<notin> set k \<longrightarrow>
          (\<forall>ps0. \<exists>ps. setProps_all (findall PROPERTIES (node (obj ?n'))) ps0 = Inr ps
                        \<and> ps (Some k) = Some (Some v))"
    using readback_appended [OF wf nx old new] by blast
  with c new show "\<exists>n'. changeProp n k (Some v) = Inr (1, n')
               \<and> findall PROPERTIES (node (obj n'))
                   = pes @ [set_children (children pe @ [new_property k v]) pe]
               \<and> (CHR ''#'' \<notin> set k \<longrightarrow>
                    (\<forall>ps0. \<exists>ps. setProps_all (findall PROPERTIES (node (obj n'))) ps0 = Inr ps
                        \<and> ps (Some k) = Some (Some v)))"
    by blast
next
  fix p show "eget (mark_deleted p) ''xsi:nil'' = Some ''true''" by (simp add: mark_deleted_marks)
next
  fix p show "etext (mark_deleted p) = Some []" by (simp add: mark_deleted_marks)
qed

lemma node_setxattr [simp]: "node (setxattr ob) = node ob"
  by (simp add: setxattr_def)

lemma Node_init_data:
  assumes ty: "eget e Node_TYPE = Some t" and nc: "t \<noteq> ''vos:ContainerNode''"
    and ur: "eget e ''uri'' = Some u"
    and wf: "list_all (\<lambda>p. eget p ''uri'' \<noteq> None) (all_properties e)"
  shows "\<exists>n. Node_init e = Inr n
           \<and> node (obj n) = set_attrib (dict_set ''xmlns:vos'' VOSNS (attrib e)) e
           \<and> type (obj n) = Some t \<and> uri (obj n) = Some u"
proof -
  let ?e = "set_attrib (dict_set ''xmlns:vos'' VOSNS (attrib e)) e"
  have nd: "node (obj (fresh e)) = ?e" by (simp add: fresh_def)
  have ty': "eget (node (obj (fresh e))) Node_TYPE = Some t"
    using ty by (simp add: nd set_attrib_def eget_def map_of_dict_set_other Node_TYPE_def)
  have ur': "eget (node (obj (fresh e))) ''uri'' = Some u"
    using ur by (simp add: nd set_attrib_def eget_def map_of_dict_set_other)
  have "all_properties ?e = all_properties e"
    by (simp add: all_properties_def findall_def set_attrib_def)
  with wf have "list_all (\<lambda>p. eget p ''uri'' \<noteq> None) (all_properties (node (obj (fresh e))))"
    by (simp add: nd)
  from setProps_loop_total [OF this]
  obtain ps where ps: "setProps_all (findall PROPERTIES (node (obj (fresh e)))) (props (obj (fresh e))) = Inr ps"
    by (auto simp: setProps_all_node)
  show ?thesis
    by (subst Node_init.simps) (simp add: update_from_data [OF ty' nc ur' ps] nd setxattr_def)
qed

text \<open>
  On a node whose element has two \<^verbatim>\<open>properties\<close> children the new property goes under the
  second one, the first stays as it was.
\<close>

lemma changeProp_appends_to_last_properties:
  "(case Node_init two_properties_elem of
      Inl e \<Rightarrow> None
    | Inr n \<Rightarrow>
        (case changeProp n ''quota'' (Some ''5'') of
           Inl e \<Rightarrow> None
         | Inr (r, n') \<Rightarrow> Some (r, findall PROPERTIES (node (obj n')))))
   = Some (1, [Elem PROPERTIES [] None [property_elem ''ispublic'' ''true''],
               Elem PROPERTIES [] None [new_property ''quota'' ''5'']])"
proof -
  have "\<exists>n. Node_init two_properties_elem = Inr n
           \<and> node (obj n) = set_attrib (dict_set ''xmlns:vos'' VOSNS (attrib two_properties_elem)) two_properties_elem
           \<and> type (obj n) = Some ''vos:DataNode'' \<and> uri (obj n) = Some ''vos://cadc.nrc.ca!vospace/demo/a''"
    by (rule Node_init_data)
       (simp_all add: two_properties_elem_def eget_def Node_TYPE_def XSINS_def all_properties_def
          findall_def property_elem_def)
  then obtain n where n: "Node_init two_properties_elem = Inr n"
    and nd: "node (obj n) =
       Elem NODE [(Node_TYPE, ''vos:DataNode''), (''uri'', ''vos://cadc.nrc.ca!vospace/demo/a''),
                  (''xmlns:vos'', VOSNS)] None
       [Elem PROPERTIES [] None [property_elem ''ispublic'' ''true''],
        Elem PROPERTIES [] None []]"
    by (auto simp: two_properties_elem_def set_attrib_def Node_TYPE_def XSINS_def)
  have ap: "all_properties (node (obj n)) = [property_elem ''ispublic'' ''true'']"
    by (simp add: nd all_properties_def findall_def)
  have wf: "list_all (\<lambda>p. eget p ''uri'' \<noteq> None) (all_properties (node (obj n)))"
    by (simp add: ap) (simp add: property_elem_def eget_def)
  have nx: "\<not> list_ex (named ''quota'') (all_properties (node (obj n)))"
    by (simp add: ap named_def getPropName_property_elem)
  have al: "add_to_last_properties (new_property ''quota'' ''5'') (children (node (obj n)))
      = Some [Elem PROPERTIES [] None [property_elem ''ispublic'' ''true''],
               Elem PROPERTIES [] None [new_property ''quota'' ''5'']]"
    by (simp add: nd add_to_last_properties_def set_children_def)
  show ?thesis
    unfolding n by (simp add: changeProp_absent_set [OF wf nx] al findall_def)
qed

lemma all_properties_data_node:
  "all_properties (node (obj (data_node u X)))
     = [property_elem ''ispublic'' ''false'', property_elem ''groupread'' X,
        property_elem ''groupwrite'' X]"
  by (simp add: data_node_def all_properties_def findall_def)

lemma eget_uri_property_elem [simp]: "eget (property_elem k v) ''uri'' = Some (IVOAURL @ ''#'' @ k)"
  by (simp add: property_elem_def eget_def)

lemma changeProp_effect_demo:
  "list_all (\<lambda>p. eget p ''uri'' \<noteq> None) (all_properties (node (obj (data_node demo_uri ''staff''))))
   \<and> list_ex (named ''groupread'') (all_properties (node (obj (data_node demo_uri ''staff''))))
   \<and> (\<exists>n'. changeProp (data_node demo_uri ''staff'') ''groupread'' (Some ''ops'') = Inr (1, n')
         \<and> all_properties (node (obj n'))
            = [property_elem ''ispublic'' ''false'', property_elem ''groupread'' ''ops'',
               property_elem ''groupwrite'' ''staff''])
   \<and> \<not> list_ex (named ''quota'') (all_properties (node (obj (data_node demo_uri ''staff''))))
   \<and> changeProp (data_node demo_uri ''staff'') ''quota'' None = Inr (0, data_node demo_uri ''staff'')"
proof -
  let ?n = "data_node demo_uri ''staff''"
  have wf: "list_all (\<lambda>p. eget p ''uri'' \<noteq> None) (all_properties (node (obj ?n)))"
    by (simp add: all_properties_data_node)
  have ex: "list_ex (named ''groupread'') (all_properties (node (obj ?n)))"
    by (simp add: all_properties_data_node named_def getPropName_property_elem)
  have nx: "\<not> list_ex (named ''quota'') (all_properties (node (obj ?n)))"
    by (simp add: all_properties_data_node named_def getPropName_property_elem)
  have m: "map (\<lambda>p. if named ''groupread'' p then set_etext (Some ''ops'') p else p)
             (all_properties (node (obj ?n)))
         = [property_elem ''ispublic'' ''false'', property_elem ''groupread'' ''ops'',
               property_elem ''groupwrite'' ''staff'']"
    by (simp add: all_properties_data_node named_def getPropName_property_elem)
  from changeProp_effect [OF wf, of "''groupread''" "''ops''"] ex m
  have a: "\<exists>n'. changeProp ?n ''groupread'' (Some ''ops'') = Inr (1, n')
         \<and> all_properties (node (obj n'))
            = [property_elem ''ispublic'' ''false'', property_elem ''groupread'' ''ops'',
               property_elem ''groupwrite'' ''staff'']"
    by auto
  from changeProp_effect [OF wf, of "''quota''" "''5''"] nx
  have b: "changeProp ?n ''quota'' None = Inr (0, ?n)" by blast
  from wf ex a nx b show ?thesis by blast
qed


subsection \<open>changeProp and the property map\<close>

text \<open>
  C1 at a property that exists. On the data node built from an element with the properties
  \<^verbatim>\<open>ispublic=false\<close>, \<^verbatim>\<open>groupread=X\<close>, \<^verbatim>\<open>groupwrite=X\<close>, \<^verbatim>\<open>changeProp('groupread', v)\<close>
  returns 1 and sets the text of the property element to \<open>v\<close>, but the property map
  \<^verbatim>\<open>self.props\<close>, which is what a property read looks at (\<^verbatim>\<open>props.get\<close>), still gives
  \<open>X\<close>: the branch that sets a value does not write the map. The branch that deletes does
  (\<^verbatim>\<open>changeProp('groupread', None)\<close> returns 0, marks the element with
  \<^verbatim>\<open>xsi:nil="true"\<close> and the empty text, and maps the key to \<^verbatim>\<open>None\<close>), and only
  \<^verbatim>\<open>update()\<close>, which \<^verbatim>\<open>changeProp\<close> does not call, loads \<open>v\<close> into the map.
\<close>

theorem changeProp_set_leaves_property_map:
  "\<exists>n' nu n''. Node_init (data_node_elem u X) = Inr (data_node u X)
     \<and> changeProp (data_node u X) ''groupread'' (Some v) = Inr (1, n')
     \<and> all_properties (node (obj n'))
         = [property_elem ''ispublic'' ''false'', property_elem ''groupread'' v,
            property_elem ''groupwrite'' X]
     \<and> props (obj n') (Some ''groupread'') = Some (Some X)
     \<and> props_get (props (obj n')) ''groupread'' (Some []) = Some X
     \<and> update n' = Inr nu
     \<and> props (obj nu) (Some ''groupread'') = Some (Some v)
     \<and> changeProp (data_node u X) ''groupread'' None = Inr (0, n'')
     \<and> all_properties (node (obj n''))
         = [property_elem ''ispublic'' ''false'', mark_deleted (property_elem ''groupread'' X),
            property_elem ''groupwrite'' X]
     \<and> props (obj n'') (Some ''groupread'') = Some None"
proof -
  let ?n = "data_node u X"
  let ?e = "Elem NODE [(Node_TYPE, ''vos:DataNode''), (''uri'', u), (''xmlns:vos'', VOSNS)] None
          [Elem PROPERTIES [] None
                  [property_elem ''ispublic'' ''false'', property_elem ''groupread'' v,
                   property_elem ''groupwrite'' X]]"
  let ?n' = "upd_obj (\<lambda>ob. ob\<lparr>node := ?e\<rparr>) ?n"
  have c: "changeProp ?n ''groupread'' (Some v) = Inr (1, ?n')"
    by (simp add: data_node_def upd_obj_def changeProp_data_node)
  have ap: "all_properties (node (obj ?n'))
         = [property_elem ''ispublic'' ''false'', property_elem ''groupread'' v,
            property_elem ''groupwrite'' X]"
    by (simp add: all_properties_def findall_def)
  have ps: "props (obj ?n') = [Some ''ispublic'' \<mapsto> Some ''false'', Some ''groupread'' \<mapsto> Some X,
                    Some ''groupwrite'' \<mapsto> Some X]" by (simp add: data_node_def)
  have stale: "props (obj ?n') (Some ''groupread'') = Some (Some X)" unfolding ps by simp
  have rd: "props_get (props (obj ?n')) ''groupread'' (Some []) = Some X"
    unfolding ps by (simp add: props_get_def)
  have ety: "eget (node (obj ?n')) Node_TYPE = Some ''vos:DataNode''"
    by (simp add: eget_def)
  have eur: "eget (node (obj ?n')) ''uri'' = Some u"
    by (simp add: eget_def Node_TYPE_def XSINS_def)
  have sp: "setProps_all (findall PROPERTIES (node (obj ?n'))) (props (obj ?n'))
      = Inr [Some ''ispublic'' \<mapsto> Some ''false'', Some ''groupread'' \<mapsto> Some v,
                    Some ''groupwrite'' \<mapsto> Some X]"
  proof -
    have "[Some ''ispublic'' \<mapsto> Some ''false'', Some ''groupread'' \<mapsto> Some X,
                    Some ''groupwrite'' \<mapsto> Some X]
            (Some ''ispublic'' \<mapsto> Some ''false'', Some ''groupread'' \<mapsto> Some v,
                    Some ''groupwrite'' \<mapsto> Some X)
        = [Some ''ispublic'' \<mapsto> Some ''false'', Some ''groupread'' \<mapsto> Some v,
                    Some ''groupwrite'' \<mapsto> Some X]"
      by (rule ext) simp
    then show ?thesis
      unfolding ps by (simp add: findall_def setProps_def getPropName_property_elem getPropValue_def)
  qed
  have "child_elems (node (obj ?n')) = []" by (simp add: child_elems_def findall_def)
  then have up: "update ?n' = update_from [] ?n'" by (simp add: update_def)
  have su: "\<exists>nu. update ?n' = Inr nu \<and> props (obj nu) (Some ''groupread'') = Some (Some v)"
    unfolding up update_from_data [OF ety _ eur sp, simplified]
    by (simp add: setxattr_def)
  have wf: "list_all (\<lambda>p. eget p ''uri'' \<noteq> None) (all_properties (node (obj ?n)))"
    by (simp add: all_properties_data_node)
  have ex: "list_ex (named ''groupread'') (all_properties (node (obj ?n)))"
    by (simp add: all_properties_data_node named_def getPropName_property_elem)
  have m: "map (changed_elem ''groupread'' None) (all_properties (node (obj ?n)))
         = [property_elem ''ispublic'' ''false'', mark_deleted (property_elem ''groupread'' X),
            property_elem ''groupwrite'' X]"
    by (simp add: all_properties_data_node changed_elem_def named_def getPropName_property_elem)
  let ?d = "upd_obj (\<lambda>ob. ob\<lparr>node := set_children
                  (apply_props (changed_elem ''groupread'' None) (children (node ob))) (node ob),
                  props := (props ob)(Some ''groupread'' \<mapsto> None)\<rparr>) ?n"
  have d: "changeProp ?n ''groupread'' None = Inr (0, ?d)"
    by (rule changeProp_existing_delete [OF wf ex])
  have dp: "all_properties (node (obj ?d))
         = [property_elem ''ispublic'' ''false'', mark_deleted (property_elem ''groupread'' X),
            property_elem ''groupwrite'' X]"
    using m by (simp add: all_properties_changed)
  have dm: "props (obj ?d) (Some ''groupread'') = Some None" by simp
  from data_node_built c ap stale rd su d dp dm show ?thesis by blast
qed
subsection \<open>Evaluating chmod\<close>

lemma chmod_750_round_trip_aux:
  "\<exists>n' na nu. Node_init (data_node_elem u X) = Inr (data_node u X)
     \<and> chmod (data_node u X) 488 = Inr (True, n')
     \<and> all_properties (node (obj n'))
         = [property_elem ''ispublic'' ''false'', property_elem ''groupread'' X,
            property_elem ''groupwrite'' []]
     \<and> props (obj n') (Some ''groupwrite'') = Some (Some X)
     \<and> setattr [] n' = Inr na
     \<and> map_of (attr (obj na)) ''st_mode''
         = Some (if X = ''NONE'' then S_IFREG OR 448 else S_IFREG OR 504)
     \<and> update n' = Inr nu
     \<and> map_of (attr (obj nu)) ''st_mode''
         = Some (if X = ''NONE'' then S_IFREG OR 464 else S_IFREG OR 504)
     \<and> props (obj nu) (Some ''groupwrite'') = Some (Some [])"
proof -
  let ?e = "Elem NODE [(Node_TYPE, ''vos:DataNode''), (''uri'', u), (''xmlns:vos'', VOSNS)] None
          [Elem PROPERTIES [] None
                  [property_elem ''ispublic'' ''false'', property_elem ''groupread'' X,
                   property_elem ''groupwrite'' []]]"
  let ?n' = "upd_obj (\<lambda>ob. ob\<lparr>node := ?e, groupwrite := Some (Some [])\<rparr>) (data_node u X)"
  have c: "chmod (data_node u X) 488 = Inr (True, ?n')" by (rule chmod_750_data_node)
  have ap: "all_properties (node (obj ?n'))
         = [property_elem ''ispublic'' ''false'', property_elem ''groupread'' X,
            property_elem ''groupwrite'' []]"
    by (simp add: all_properties_def findall_def)
  have ty: "type (obj ?n') = Some ''vos:DataNode''" by (simp add: data_node_def)
  have ps: "props (obj ?n') = [Some ''ispublic'' \<mapsto> Some ''false'', Some ''groupread'' \<mapsto> Some X,
                    Some ''groupwrite'' \<mapsto> Some X]" by (simp add: data_node_def)
  have stale: "props (obj ?n') (Some ''groupwrite'') = Some (Some X)" unfolding ps by simp
  have sm: "st_mode (obj ?n') = (if X = ''NONE'' then S_IFREG OR 448 else S_IFREG OR 504)"
    using st_mode_data [OF ty _ ps] by simp
  have sa: "\<exists>na. setattr [] ?n' = Inr na
      \<and> map_of (attr (obj na)) ''st_mode''
          = Some (if X = ''NONE'' then S_IFREG OR 448 else S_IFREG OR 504)"
    using sm ty by (simp add: setattr_def)
  have ety: "eget (node (obj ?n')) Node_TYPE = Some ''vos:DataNode''"
    by (simp add: eget_def)
  have eur: "eget (node (obj ?n')) ''uri'' = Some u"
    by (simp add: eget_def Node_TYPE_def XSINS_def)
  have sp: "setProps_all (findall PROPERTIES (node (obj ?n'))) (props (obj ?n'))
      = Inr [Some ''ispublic'' \<mapsto> Some ''false'', Some ''groupread'' \<mapsto> Some X,
                    Some ''groupwrite'' \<mapsto> Some []]"
  proof -
    have "[Some ''ispublic'' \<mapsto> Some ''false'', Some ''groupread'' \<mapsto> Some X,
                    Some ''groupwrite'' \<mapsto> Some X]
            (Some ''ispublic'' \<mapsto> Some ''false'', Some ''groupread'' \<mapsto> Some X,
                    Some ''groupwrite'' \<mapsto> Some [])
        = [Some ''ispublic'' \<mapsto> Some ''false'', Some ''groupread'' \<mapsto> Some X,
                    Some ''groupwrite'' \<mapsto> Some []]"
      by (rule ext) simp
    then show ?thesis
      unfolding ps by (simp add: findall_def setProps_def getPropName_property_elem getPropValue_def)
  qed
  have "child_elems (node (obj ?n')) = []" by (simp add: child_elems_def findall_def)
  then have up: "update ?n' = update_from [] ?n'" by (simp add: update_def)
  have su: "\<exists>nu. update ?n' = Inr nu
     \<and> map_of (attr (obj nu)) ''st_mode''
         = Some (if X = ''NONE'' then S_IFREG OR 464 else S_IFREG OR 504)
     \<and> props (obj nu) (Some ''groupwrite'') = Some (Some [])"
    unfolding up update_from_data [OF ety _ eur sp, simplified]
    by (simp add: setxattr_def st_mode_data)
  from data_node_built c ap stale sa su show ?thesis by blast
qed

subsection \<open>chmod and the mode bits\<close>

text \<open>
  C5 at a mode that clears the group-write permission. A data node built from an element
  whose properties are \<^verbatim>\<open>ispublic=false\<close>, \<^verbatim>\<open>groupread=X\<close>, \<^verbatim>\<open>groupwrite=X\<close>:
  \<^verbatim>\<open>chmod(0o750)\<close> (488) leaves the property elements \<^verbatim>\<open>ispublic\<close> at \<^verbatim>\<open>false\<close> and
  \<^verbatim>\<open>groupread\<close> at \<open>X\<close> and sets \<^verbatim>\<open>groupwrite\<close> to the empty string, as the claim says.
  The mode computed afterwards is not \<^verbatim>\<open>S_IFREG | 0o750\<close> (488) for any \<open>X\<close>:
  \<^item> \<^verbatim>\<open>setattr()\<close> alone reads the property map, which \<^verbatim>\<open>chmod\<close> did not refresh and
    which still holds \<open>X\<close> for \<^verbatim>\<open>groupwrite\<close>: the mode is the one of before the call,
    \<^verbatim>\<open>S_IFREG | 0o770\<close> (504), or \<^verbatim>\<open>0o700\<close> (448) when \<open>X\<close> is \<^verbatim>\<open>NONE\<close>;
  \<^item> \<^verbatim>\<open>update()\<close> reloads the map and computes the mode from the empty string, which
    \<^verbatim>\<open>setattr\<close> takes for a group because it is not \<^verbatim>\<open>NONE\<close>: the group-write bit is set,
    \<^verbatim>\<open>S_IFREG | 0o770\<close> (504), or \<^verbatim>\<open>0o720\<close> (464) when \<open>X\<close> is \<^verbatim>\<open>NONE\<close>.
\<close>

theorem chmod_750_round_trip:
  "\<exists>n' na nu. Node_init (data_node_elem u X) = Inr (data_node u X)
     \<and> chmod (data_node u X) 488 = Inr (True, n')
     \<and> all_properties (node (obj n'))
         = [property_elem ''ispublic'' ''false'', property_elem ''groupread'' X,
            property_elem ''groupwrite'' []]
     \<and> props (obj n') (Some ''groupwrite'') = Some (Some X)
     \<and> setattr [] n' = Inr na
     \<and> map_of (attr (obj na)) ''st_mode''
         = Some (if X = ''NONE'' then S_IFREG OR 448 else S_IFREG OR 504)
     \<and> update n' = Inr nu
     \<and> map_of (attr (obj nu)) ''st_mode''
         = Some (if X = ''NONE'' then S_IFREG OR 464 else S_IFREG OR 504)
     \<and> props (obj nu) (Some ''groupwrite'') = Some (Some [])
     \<and> map_of (attr (obj na)) ''st_mode'' \<noteq> Some (S_IFREG OR 488)
     \<and> map_of (attr (obj nu)) ''st_mode'' \<noteq> Some (S_IFREG OR 488)"
proof -
  from chmod_750_round_trip_aux [of u X] obtain n' na nu where
    r: "Node_init (data_node_elem u X) = Inr (data_node u X)"
       "chmod (data_node u X) 488 = Inr (True, n')"
       "all_properties (node (obj n'))
         = [property_elem ''ispublic'' ''false'', property_elem ''groupread'' X,
            property_elem ''groupwrite'' []]"
       "props (obj n') (Some ''groupwrite'') = Some (Some X)"
       "setattr [] n' = Inr na"
       "map_of (attr (obj na)) ''st_mode''
         = Some (if X = ''NONE'' then S_IFREG OR 448 else S_IFREG OR 504)"
       "update n' = Inr nu"
       "map_of (attr (obj nu)) ''st_mode''
         = Some (if X = ''NONE'' then S_IFREG OR 464 else S_IFREG OR 504)"
       "props (obj nu) (Some ''groupwrite'') = Some (Some [])"
    by blast
  have "map_of (attr (obj na)) ''st_mode'' \<noteq> Some (S_IFREG OR 488)"
    unfolding r(6) by (simp add: S_IFREG_def)
  moreover have "map_of (attr (obj nu)) ''st_mode'' \<noteq> Some (S_IFREG OR 488)"
    unfolding r(8) by (simp add: S_IFREG_def)
  ultimately show ?thesis using r by blast
qed

text \<open>
  The numbers at \<open>X = staff\<close>: the mode computed after \<^verbatim>\<open>chmod(0o750)\<close> is
  \<^verbatim>\<open>S_IFREG | 0o770\<close> (33272), and \<^verbatim>\<open>S_IFREG | 0o750\<close> is 33256.
\<close>

lemma chmod_750_keeps_group_write_bit:
  "(case chmod (data_node demo_uri ''staff'') 488 of
      Inl e \<Rightarrow> None
    | Inr (b, n') \<Rightarrow>
        (case setattr [] n' of Inl e \<Rightarrow> None | Inr na \<Rightarrow> map_of (attr (obj na)) ''st_mode''))
     = Some 33272
   \<and> (case chmod (data_node demo_uri ''staff'') 488 of
      Inl e \<Rightarrow> None
    | Inr (b, n') \<Rightarrow>
        (case update n' of Inl e \<Rightarrow> None | Inr nu \<Rightarrow> map_of (attr (obj nu)) ''st_mode''))
     = Some 33272
   \<and> S_IFREG OR 488 = (33256 :: int)"
proof -
  from chmod_750_round_trip_aux [of demo_uri "''staff''"]
  obtain n' na nu where "chmod (data_node demo_uri ''staff'') 488 = Inr (True, n')"
    and "setattr [] n' = Inr na" and "map_of (attr (obj na)) ''st_mode'' = Some (S_IFREG OR 504)"
    and "update n' = Inr nu" and "map_of (attr (obj nu)) ''st_mode'' = Some (S_IFREG OR 504)"
    by auto
  then show ?thesis by (simp add: S_IFREG_def)
qed

text \<open>
  C6 at a mode that changes nothing. On the same node \<^verbatim>\<open>chmod(0o760)\<close> (496) re-applies
  \<^verbatim>\<open>ispublic=false\<close> and keeps both groups: the node after the call is the node before
  it, and the call returns \<^verbatim>\<open>True\<close>, because \<^verbatim>\<open>changeProp\<close> returns 1 whenever it finds
  the property and the value is not \<^verbatim>\<open>None\<close>.
\<close>

theorem chmod_reapplied_reports_change:
  "chmod (data_node u X) 496 = Inr (True, data_node u X)"
  by (simp add: chmod_def setPublic_def chrgrp_def chwgrp_def data_node_def upd_obj_def
      changeProp_data_node S_IROTH_def S_IRGRP_def S_IWGRP_def)

section \<open>Properties of fixURI\<close>

subsection \<open>Splitting, joining and normalizing paths\<close>

lemma split_slash_nonempty [simp]: "split_slash s \<noteq> []"
  by (induction s) (auto split: list.splits)
























lemma startswith_Cons [simp]: "startswith (c # s) [d] = (c = d)"
  by simp



lemma legal_name_Nil [simp]: "legal_name []"
  by (simp add: legal_name_def)

lemma basename_slash [simp]: "basename ''/'' = []"
  by (simp add: basename_def)


subsection \<open>Parsing and re-parsing the result\<close>




lemma take4_mk_uri [simp]: "take 4 (mk_uri h q) = ''vos:''"
  by (simp add: mk_uri_def)






section \<open>Properties of getNode\<close>

lemma update_from_uri:
  assumes "update_from kids n = Inr n'" and "uri (obj n') = Some u"
    and "uri (obj n) = None"
  shows "eget (node (obj n)) ''uri'' = Some u"
  using assms
  by (auto simp: update_from_def setattr_def getNodeList_def upd_obj_def set_nodeList_def setxattr_def
      split: option.splits sum.splits if_splits prod.splits)

lemma Node_init_uri:
  assumes "Node_init e = Inr n" and "uri (obj n) = Some u"
  shows "eget e ''uri'' = Some u"
proof -
  from assms(1) have "update_from (map Node_init (child_elems e)) (fresh e) = Inr n"
    by (subst (asm) Node_init.simps)
  from update_from_uri [OF this assms(2)]
  have "eget (node (obj (fresh e))) ''uri'' = Some u" by (simp add: fresh_def)
  then show ?thesis
    by (simp add: fresh_def set_attrib_def eget_def map_of_dict_set_other)
qed

lemma remdups_adj_head: "remdups_adj (x # xs) = x # tl (remdups_adj (x # xs))"
  by (cases "remdups_adj (x # xs)") (auto dest: arg_cong [where f = hd] simp: hd_remdups_adj)

lemma page_children_result:
  assumes "page_children cs (c, nl, ag) = Inr (c', nl', ag')"
  shows "node_uris nl' = node_uris nl @ tl (remdups_adj (c # map (\<lambda>ch. eget ch ''uri'') cs))
       \<and> c' = last (remdups_adj (c # map (\<lambda>ch. eget ch ''uri'') cs))
       \<and> (\<exists>new. nl' = nl @ new \<and> ag' = (ag \<or> new \<noteq> [])
              \<and> list_all (\<lambda>u. u \<noteq> None) (node_uris new))"
  using assms
proof (induction cs arbitrary: c nl ag)
  case Nil
  then show ?case by (simp add: node_uris_def)
next
  case (Cons ch cs)
  show ?case
  proof (cases "eget ch ''uri'' = c")
    case True
    with Cons.prems have "page_children cs (c, nl, ag) = Inr (c', nl', ag')" by simp
    from Cons.IH [OF this] True show ?thesis by simp
  next
    case False
    with Cons.prems obtain cn u where cn: "Node_init ch = Inr cn" and u: "uri (obj cn) = Some u"
      and rest: "page_children cs (Some u, nl @ [cn], True) = Inr (c', nl', ag')"
      by (auto split: sum.splits option.splits)
    from Node_init_uri [OF cn u] have x: "eget ch ''uri'' = Some u" .
    from Cons.IH [OF rest] obtain new where
      a: "node_uris nl' = node_uris (nl @ [cn]) @ tl (remdups_adj (Some u # map (\<lambda>ch. eget ch ''uri'') cs))"
      and b: "c' = last (remdups_adj (Some u # map (\<lambda>ch. eget ch ''uri'') cs))"
      and c: "nl' = (nl @ [cn]) @ new" and d: "ag' = (True \<or> new \<noteq> [])"
      and e: "list_all (\<lambda>u. u \<noteq> None) (node_uris new)"
      by blast
    have r: "remdups_adj (Some u # map (\<lambda>ch. eget ch ''uri'') cs)
           = Some u # tl (remdups_adj (Some u # map (\<lambda>ch. eget ch ''uri'') cs))"
      by (rule remdups_adj_head)
    from False x have ne: "c \<noteq> Some u" by auto
    have t: "tl (remdups_adj (c # map (\<lambda>ch. eget ch ''uri'') (ch # cs)))
           = remdups_adj (Some u # map (\<lambda>ch. eget ch ''uri'') cs)"
      using ne x by simp
    have "node_uris nl' = node_uris nl @ tl (remdups_adj (c # map (\<lambda>ch. eget ch ''uri'') (ch # cs)))"
      unfolding t using a r u by (simp add: node_uris_def)
    moreover have "c' = last (remdups_adj (c # map (\<lambda>ch. eget ch ''uri'') (ch # cs)))"
      using b ne x by simp
    moreover have "\<exists>new. nl' = nl @ new \<and> ag' = (ag \<or> new \<noteq> [])
              \<and> list_all (\<lambda>u. u \<noteq> None) (node_uris new)"
      using c d e u by (intro exI [of _ "cn # new"]) (simp add: node_uris_def)
    ultimately show ?thesis by blast
  qed
qed

lemma remdups_adj_split:
  "xs \<noteq> [] \<Longrightarrow> remdups_adj (xs @ ys) = remdups_adj xs @ tl (remdups_adj (last xs # ys))"
proof -
  assume "xs \<noteq> []"
  then have x: "butlast xs @ [last xs] = xs" by simp
  then have "xs @ ys = butlast xs @ last xs # ys" by (metis append_Cons append_Nil append_assoc)
  then show ?thesis
    by (simp only: remdups_adj_append [of "butlast xs" "last xs" ys] x)
qed

lemma load_children_result:
  assumes "load_children fuel srv k (c, nl) reqs = Some (Inr (nl', reqs'))"
  shows "\<exists>cs. reqs' = reqs @ c # cs \<and> cursor_chain srv k c cs
           \<and> node_uris nl' = node_uris nl @ tl (remdups_adj (c # seen_uris srv k (c # cs)))
           \<and> (\<exists>new. nl' = nl @ new \<and> list_all (\<lambda>u. u \<noteq> None) (node_uris new))"
  using assms
proof (induction fuel arbitrary: k c nl reqs)
  case 0
  then show ?case by simp
next
  case (Suc fuel)
  from Suc.prems obtain doc where doc: "srv k c = Inr doc"
    by (auto split: sum.splits)
  let ?p = "map (\<lambda>ch. eget ch ''uri'') (child_elems doc)"
  have pu: "page_uris (srv k c) = ?p" by (simp add: doc page_uris_def)
  have "\<exists>c1 nl1 ag. page_children (child_elems doc) (c, nl, False) = Inr (c1, nl1, ag)"
  proof (cases "page_children (child_elems doc) (c, nl, False)")
    case (Inl e)
    with Suc.prems doc show ?thesis by simp
  next
    case (Inr st)
    then show ?thesis by (cases st) auto
  qed
  then obtain c1 nl1 ag where pc: "page_children (child_elems doc) (c, nl, False) = Inr (c1, nl1, ag)"
    by blast
  from page_children_result [OF pc] obtain new where
    u1: "node_uris nl1 = node_uris nl @ tl (remdups_adj (c # ?p))"
    and c1: "c1 = last (remdups_adj (c # ?p))"
    and new: "nl1 = nl @ new" "ag = (new \<noteq> [])" "list_all (\<lambda>u. u \<noteq> None) (node_uris new)"
    by auto
  from u1 new(1) have tn: "tl (remdups_adj (c # ?p)) = node_uris new" by (simp add: node_uris_def)
  show ?case
  proof (cases ag)
    case False
    with Suc.prems doc pc have r: "nl' = nl1" "reqs' = reqs @ [c]" by auto
    from False new(2) tn have "tl (remdups_adj (c # ?p)) = []" by (simp add: node_uris_def)
    with r u1 new pu show ?thesis
      by (intro exI [of _ "[]"]) simp
  next
    case True
    with Suc.prems doc pc
    have "load_children fuel srv (Suc k) (c1, nl1) (reqs @ [c]) = Some (Inr (nl', reqs'))" by simp
    from Suc.IH [OF this] obtain cs new' where
      a: "reqs' = (reqs @ [c]) @ c1 # cs" and b: "cursor_chain srv (Suc k) c1 cs"
      and d: "node_uris nl' = node_uris nl1 @ tl (remdups_adj (c1 # seen_uris srv (Suc k) (c1 # cs)))"
      and e: "nl' = nl1 @ new'" "list_all (\<lambda>u. u \<noteq> None) (node_uris new')"
      by blast
    from True new(2) tn have ne: "tl (remdups_adj (c # ?p)) \<noteq> []" by (simp add: node_uris_def)
    have l: "c1 = last (c # ?p)" using c1 by simp
    have "remdups_adj ((c # ?p) @ seen_uris srv (Suc k) (c1 # cs))
            = remdups_adj (c # ?p) @ tl (remdups_adj (c1 # seen_uris srv (Suc k) (c1 # cs)))"
      unfolding l by (rule remdups_adj_split) simp
    moreover have "remdups_adj (c # ?p) \<noteq> []" by simp
    ultimately have "tl (remdups_adj ((c # ?p) @ seen_uris srv (Suc k) (c1 # cs)))
            = tl (remdups_adj (c # ?p)) @ tl (remdups_adj (c1 # seen_uris srv (Suc k) (c1 # cs)))"
      by (metis tl_append2)
    then have "tl (remdups_adj (c # seen_uris srv k (c # c1 # cs)))
            = tl (remdups_adj (c # ?p)) @ tl (remdups_adj (c1 # seen_uris srv (Suc k) (c1 # cs)))"
      using pu by (simp add: tl_append2 del: remdups_adj.simps)
    with d u1 have "node_uris nl' = node_uris nl @ tl (remdups_adj (c # seen_uris srv k (c # c1 # cs)))"
      by simp
    moreover have "cursor_chain srv k c (c1 # cs)" using b ne l pu by simp
    moreover have "nl' = nl @ (new @ new')" "list_all (\<lambda>u. u \<noteq> None) (node_uris (new @ new'))"
      using e new by (simp_all add: node_uris_def)
    ultimately show ?thesis using a by (intro exI [of _ "c1 # cs"]) auto
  qed
qed

lemma isdir_set_nodeList [simp]: "isdir (set_nodeList l n) = isdir n"
  by (simp add: isdir_def set_nodeList_def)

lemma nodeList_set_nodeList [simp]: "nodeList (set_nodeList l n) = l"
  by (simp add: set_nodeList_def)

lemma distinct_adj_tl: "distinct_adj xs \<Longrightarrow> distinct_adj (tl xs)"
  by (cases xs) (auto simp: distinct_adj_Cons)

lemma load_children_stops:
  assumes "srv k c = Inr doc"
    and "page_children (child_elems doc) (c, nl, False) = Inr (c', nl', False)"
  shows "load_children (Suc fuel) srv k (c, nl) reqs = Some (Inr (nl', reqs @ [c]))"
  using assms by simp

lemma load_children_more_fuel:
  "load_children fuel srv k st reqs = Some r \<Longrightarrow> load_children (fuel + d) srv k st reqs = Some r"
proof (induction fuel arbitrary: k st reqs)
  case 0
  then show ?case by simp
next
  case (Suc fuel)
  obtain c nl where st: "st = (c, nl)" by (cases st)
  show ?case
  proof (cases "srv k c")
    case (Inl e)
    with Suc.prems st show ?thesis by simp
  next
    case (Inr doc)
    show ?thesis
    proof (cases "page_children (child_elems doc) (c, nl, False)")
      case pe: (Inl e)
      with Suc.prems st Inr show ?thesis by simp
    next
      case pr: (Inr res)
      obtain c1 nl1 ag where res: "res = (c1, nl1, ag)" by (cases res)
      show ?thesis
      proof (cases ag)
        case True
        with Suc.prems st Inr pr res
        have "load_children fuel srv (Suc k) (c1, nl1) (reqs @ [c]) = Some r" by simp
        from Suc.IH [OF this] True st Inr pr res show ?thesis by simp
      next
        case False
        with Suc.prems st Inr pr res show ?thesis by simp
      qed
    qed
  qed
qed

text \<open>
  Every run that returns has this shape: the first request for children carries no cursor,
  every later request carries the URI listed last on the page before it, every page but the
  last adds a child and the last adds none, and the child list is the concatenation of the
  pages without each child whose URI equals the URI of the child kept just before it.
\<close>

lemma getNode_returned_run:
  assumes run: "getNode fuel first srv limit = Some (Inr (n, reqs))"
    and dir: "isdir n" and lim: "0 < limit"
  shows "\<exists>nl cs. nodeList n = Some nl \<and> reqs = None # cs \<and> cursor_chain srv 0 None cs
           \<and> node_uris nl = tl (remdups_adj (None # seen_uris srv 0 reqs))
           \<and> distinct_adj (node_uris nl) \<and> list_all (\<lambda>u. u \<noteq> None) (node_uris nl)"
proof -
  from run obtain root n0 where "first = Inr root" and n0: "Node_init root = Inr n0"
    by (auto simp: getNode_def split: sum.splits)
  with run have r: "(if isdir n0 \<and> limit > 0 then
                 (case load_children fuel srv 0 (None, []) [] of
                    None \<Rightarrow> None
                  | Some (Inl e) \<Rightarrow> Some (Inl e)
                  | Some (Inr (nl, reqs)) \<Rightarrow> Some (Inr (set_nodeList (Some nl) n0, reqs)))
               else Some (Inr (n0, []))) = Some (Inr (n, reqs))"
    by (simp add: getNode_def)
  have d0: "isdir n0"
  proof (rule ccontr)
    assume "\<not> isdir n0"
    with r have "n = n0" by simp
    with dir \<open>\<not> isdir n0\<close> show False by simp
  qed
  with r lim obtain nl where lc: "load_children fuel srv 0 (None, []) [] = Some (Inr (nl, reqs))"
    and n: "n = set_nodeList (Some nl) n0"
    by (auto split: option.splits sum.splits)
  from load_children_result [OF lc] obtain cs where
    a: "reqs = None # cs" and b: "cursor_chain srv 0 None cs"
    and c: "node_uris nl = tl (remdups_adj (None # seen_uris srv 0 (None # cs)))"
    and d: "list_all (\<lambda>u. u \<noteq> None) (node_uris nl)"
    by (auto simp: node_uris_def)
  have "distinct_adj (node_uris nl)"
    unfolding c by (rule distinct_adj_tl) (rule distinct_adj_remdups_adj)
  with a b c d n show ?thesis by simp
qed

subsection \<open>The loop returns at the first page that adds no child\<close>

lemma page_children_builds:
  assumes "list_all builds cs"
  shows "\<exists>c' nl' ag'. page_children cs (c, nl, ag) = Inr (c', nl', ag')"
  using assms
proof (induction cs arbitrary: c nl ag)
  case Nil
  then show ?case by simp
next
  case (Cons ch cs)
  from Cons.prems have b: "builds ch" and rest: "list_all builds cs" by simp_all
  from b obtain cn u where cn: "Node_init ch = Inr cn" "uri (obj cn) = Some u"
    by (auto simp: builds_def split: sum.splits)
  show ?case
  proof (cases "eget ch ''uri'' = c")
    case True
    with Cons.IH [OF rest, of c nl ag] show ?thesis by simp
  next
    case False
    with Cons.IH [OF rest, of "Some u" "nl @ [cn]" True] cn show ?thesis by simp
  qed
qed

lemma page_children_again:
  assumes "list_all builds cs"
  shows "\<exists>nl'. page_children cs (c, nl, False)
           = Inr (last (c # map (\<lambda>ch. eget ch ''uri'') cs), nl',
                  tl (remdups_adj (c # map (\<lambda>ch. eget ch ''uri'') cs)) \<noteq> [])"
proof -
  from page_children_builds [OF assms, of c nl False] obtain c' nl' ag'
    where pc: "page_children cs (c, nl, False) = Inr (c', nl', ag')" by blast
  from page_children_result [OF pc] obtain new where
    u: "node_uris nl' = node_uris nl @ tl (remdups_adj (c # map (\<lambda>ch. eget ch ''uri'') cs))"
    and l: "c' = last (remdups_adj (c # map (\<lambda>ch. eget ch ''uri'') cs))"
    and n: "nl' = nl @ new" "ag' = (new \<noteq> [])"
    by auto
  from u n have "ag' = (tl (remdups_adj (c # map (\<lambda>ch. eget ch ''uri'') cs)) \<noteq> [])"
    by (auto simp: node_uris_def)
  moreover from l have "c' = last (c # map (\<lambda>ch. eget ch ''uri'') cs)" by simp
  ultimately show ?thesis using pc by blast
qed

lemma load_children_total:
  assumes "cursor_chain srv k c cs" and "answered srv k (c # cs)" and "length cs < fuel"
  shows "\<exists>nl'. load_children fuel srv k (c, nl) reqs = Some (Inr (nl', reqs @ c # cs))"
  using assms
proof (induction cs arbitrary: fuel k c nl reqs)
  case Nil
  from Nil.prems(3) obtain f where f: "fuel = Suc f" by (cases fuel) auto
  from Nil.prems(2) obtain doc where doc: "srv k c = Inr doc" and b: "list_all builds (child_elems doc)"
    by (auto split: sum.splits)
  from Nil.prems(1) doc have e: "tl (remdups_adj (c # map (\<lambda>ch. eget ch ''uri'') (child_elems doc))) = []"
    by (simp add: page_uris_def)
  from page_children_again [OF b, of c nl] obtain nl' where
    "page_children (child_elems doc) (c, nl, False)
       = Inr (last (c # map (\<lambda>ch. eget ch ''uri'') (child_elems doc)), nl',
              tl (remdups_adj (c # map (\<lambda>ch. eget ch ''uri'') (child_elems doc))) \<noteq> [])"
    by blast
  with e doc f show ?case by simp
next
  case (Cons c1 cs)
  from Cons.prems(3) obtain f where f: "fuel = Suc f" and fl: "length cs < f" by (cases fuel) auto
  from Cons.prems(2) obtain doc where doc: "srv k c = Inr doc" and b: "list_all builds (child_elems doc)"
    and rest: "answered srv (Suc k) (c1 # cs)"
    by (auto split: sum.splits)
  have pu: "page_uris (srv k c) = map (\<lambda>ch. eget ch ''uri'') (child_elems doc)"
    by (simp add: doc page_uris_def)
  from Cons.prems(1)
  have e: "tl (remdups_adj (c # map (\<lambda>ch. eget ch ''uri'') (child_elems doc))) \<noteq> []"
    and l: "c1 = last (c # map (\<lambda>ch. eget ch ''uri'') (child_elems doc))"
    and ch: "cursor_chain srv (Suc k) c1 cs"
    unfolding cursor_chain.simps pu by blast+
  from page_children_again [OF b, of c nl] obtain nl1 where
    "page_children (child_elems doc) (c, nl, False)
       = Inr (last (c # map (\<lambda>ch. eget ch ''uri'') (child_elems doc)), nl1,
              tl (remdups_adj (c # map (\<lambda>ch. eget ch ''uri'') (child_elems doc))) \<noteq> [])"
    by blast
  then have pc: "page_children (child_elems doc) (c, nl, False) = Inr (c1, nl1, True)"
    unfolding l [symmetric] using e by simp
  from Cons.IH [OF ch rest fl, of nl1 "reqs @ [c]"] obtain nl' where
    "load_children f srv (Suc k) (c1, nl1) (reqs @ [c]) = Some (Inr (nl', (reqs @ [c]) @ c1 # cs))"
    by blast
  with pc doc f show ?case by simp
qed

text \<open>
  C4, as the code has it. Take a container and a service that answers the requests of the
  run (the first without a cursor, each later one with the URI listed last on the page
  before it, which is the URI of the child appended last), and let the page of the request
  after \<open>length cs\<close> pages that each added a child be the first that adds none. Then
  \<^verbatim>\<open>getNode\<close> with a positive \<^verbatim>\<open>limit\<close> returns, after exactly these requests and whatever
  the bound on the iterations beyond their number. The child list is the concatenation of
  the pages in the order received, without each child whose URI equals the URI of the child
  kept just before it (\<open>remdups_adj\<close>, started at the absent cursor): the order of the pages
  is kept across page boundaries, every child has a URI, and no two neighbours in the list
  have the same URI (\<open>distinct_adj\<close>). A URI that comes back after another one is kept
  again.
\<close>

theorem getNode_children_loaded:
  assumes root: "Node_init root = Inr n0" and dir: "isdir n0" and lim: "0 < limit"
    and chain: "cursor_chain srv 0 None cs" and ans: "answered srv 0 (None # cs)"
    and fuel: "length cs < fuel"
  shows "\<exists>nl. getNode fuel (Inr root) srv limit = Some (Inr (set_nodeList (Some nl) n0, None # cs))
           \<and> node_uris nl = tl (remdups_adj (None # seen_uris srv 0 (None # cs)))
           \<and> distinct_adj (node_uris nl) \<and> list_all (\<lambda>u. u \<noteq> None) (node_uris nl)"
proof -
  from load_children_total [OF chain ans fuel, of "[]" "[]"] obtain nl where
    lc: "load_children fuel srv 0 (None, []) [] = Some (Inr (nl, None # cs))" by auto
  from load_children_result [OF lc] have
    c: "node_uris nl = tl (remdups_adj (None # seen_uris srv 0 (None # cs)))"
    and d: "list_all (\<lambda>u. u \<noteq> None) (node_uris nl)"
    by (auto simp: node_uris_def)
  have "distinct_adj (node_uris nl)"
    unfolding c by (rule distinct_adj_tl) (rule distinct_adj_remdups_adj)
  moreover have "getNode fuel (Inr root) srv limit = Some (Inr (set_nodeList (Some nl) n0, None # cs))"
    using root dir lim lc by (simp add: getNode_def)
  ultimately show ?thesis using c d by blast
qed

lemma page_children_total:
  assumes "list_all (\<lambda>ch. \<exists>u. ch = child_elem u) cs"
  shows "\<exists>nl' ag'. page_children cs (c, nl, ag) = Inr (last (c # map (\<lambda>ch. eget ch ''uri'') cs), nl', ag')"
  using assms
proof (induction cs arbitrary: c nl ag)
  case Nil
  then show ?case by simp
next
  case (Cons ch cs)
  then obtain u where ch: "ch = child_elem u" by auto
  have ur: "eget ch ''uri'' = Some u" by (simp add: ch child_elem_def eget_def Node_TYPE_def XSINS_def)
  have "\<exists>n. Node_init ch = Inr n
           \<and> node (obj n) = set_attrib (dict_set ''xmlns:vos'' VOSNS (attrib ch)) ch
           \<and> type (obj n) = Some ''vos:DataNode'' \<and> uri (obj n) = Some u"
    by (rule Node_init_data)
       (simp_all add: ch child_elem_def eget_def Node_TYPE_def XSINS_def all_properties_def findall_def)
  then obtain cn where cn: "Node_init ch = Inr cn" "uri (obj cn) = Some u" by blast
  from Cons.prems have rest: "list_all (\<lambda>ch. \<exists>u. ch = child_elem u) cs" by simp
  show ?case
  proof (cases "Some u = c")
    case True
    with Cons.IH [OF rest, of c nl ag] ur show ?thesis by auto
  next
    case False
    with Cons.IH [OF rest, of "Some u" "nl @ [cn]" True] ur cn show ?thesis by auto
  qed
qed

subsection \<open>Two runs of the loop\<close>

lemma child_elems_container_doc [simp]: "child_elems (container_doc us) = map child_elem us"
  by (simp add: child_elems_def container_doc_def findall_def child_elem_def NODE_def NODES_def)

lemma eget_uri_child_elem [simp]: "eget (child_elem u) ''uri'' = Some u"
  by (simp add: child_elem_def eget_def Node_TYPE_def XSINS_def)

lemma load_children_unfold:
  assumes "srv k c = Inr (container_doc us)"
  shows "\<exists>nl1. node_uris nl1 = node_uris nl @ tl (remdups_adj (c # map Some us))
     \<and> load_children (Suc fuel) srv k (c, nl) reqs =
         (if tl (remdups_adj (c # map Some us)) \<noteq> []
          then load_children fuel srv (Suc k) (last (c # map Some us), nl1) (reqs @ [c])
          else Some (Inr (nl1, reqs @ [c])))"
proof -
  have m: "map (\<lambda>ch. eget ch ''uri'') (map child_elem us) = map Some us" by (simp add: comp_def)
  have "list_all (\<lambda>ch. \<exists>u. ch = child_elem u) (map child_elem us)" by (auto simp: list_all_iff)
  from page_children_total [OF this, of c nl False] obtain nl1 ag
    where pc: "page_children (map child_elem us) (c, nl, False) = Inr (last (c # map Some us), nl1, ag)"
    unfolding m by blast
  from page_children_result [OF pc] obtain new where
    u: "node_uris nl1 = node_uris nl @ tl (remdups_adj (c # map Some us))"
    and n: "nl1 = nl @ new" "ag = (new \<noteq> [])"
    unfolding m by auto
  from u n have "ag = (tl (remdups_adj (c # map Some us)) \<noteq> [])" by (auto simp: node_uris_def)
  with pc u assms show ?thesis by (intro exI [of _ nl1]) simp
qed

lemma Node_init_container_doc: "\<exists>n. Node_init (container_doc []) = Inr n \<and> isdir n"
  apply (subst Node_init.simps)
  apply (simp only: child_elems_container_doc list.map)
  apply (simp add: update_from_def fresh_def container_doc_def eget_def set_attrib_def Node_TYPE_def
        XSINS_def findall_def setattr_def getNodeList_def upd_obj_def set_nodeList_def isdir_def
        setxattr_def PROPERTIES_def NODES_def)
  done

lemma repeating_service_run:
  "\<exists>nl. load_children (Suc (Suc (Suc 0))) repeating_service 0 (None, []) []
          = Some (Inr (nl, [None, Some ''vos://cadc.nrc.ca!vospace/demo/b'',
                            Some ''vos://cadc.nrc.ca!vospace/demo/a'']))
      \<and> node_uris nl = [Some ''vos://cadc.nrc.ca!vospace/demo/a'',
                         Some ''vos://cadc.nrc.ca!vospace/demo/b'',
                         Some ''vos://cadc.nrc.ca!vospace/demo/a'']"
proof -
  let ?a = "''vos://cadc.nrc.ca!vospace/demo/a''" and ?b = "''vos://cadc.nrc.ca!vospace/demo/b''"
  let ?S = repeating_service
  have s0: "?S 0 None = Inr (container_doc [?a, ?b])"
    by (simp add: repeating_service_def)
  have s1: "?S (Suc 0) (Some ?b) = Inr (container_doc [?b, ?a])"
    by (simp add: repeating_service_def)
  have s2: "?S (Suc (Suc 0)) (Some ?a) = Inr (container_doc [?a])"
    by (simp add: repeating_service_def)
  have "\<exists>nl1. node_uris nl1 = [Some ?a, Some ?b]
          \<and> load_children (Suc (Suc (Suc 0))) ?S 0 (None, []) []
               = load_children (Suc (Suc 0)) ?S (Suc 0) (Some ?b, nl1) [None]"
    using load_children_unfold [where srv = ?S and k = 0 and c = None, OF s0, of "[]" "Suc (Suc 0)" "[]"]
    by (simp del: load_children.simps add: node_uris_def)
  then obtain nl1 where u1: "node_uris nl1 = [Some ?a, Some ?b]"
    and l1: "load_children (Suc (Suc (Suc 0))) ?S 0 (None, []) []
               = load_children (Suc (Suc 0)) ?S (Suc 0) (Some ?b, nl1) [None]"
    by blast
  have "\<exists>nl2. node_uris nl2 = [Some ?a, Some ?b, Some ?a]
          \<and> load_children (Suc (Suc 0)) ?S (Suc 0) (Some ?b, nl1) [None]
               = load_children (Suc 0) ?S (Suc (Suc 0)) (Some ?a, nl2) [None, Some ?b]"
    using load_children_unfold [where srv = ?S and k = "Suc 0" and c = "Some ?b", OF s1, of nl1 "Suc 0" "[None]"] u1
    by (simp del: load_children.simps)
  then obtain nl2 where u2: "node_uris nl2 = [Some ?a, Some ?b, Some ?a]"
    and l2: "load_children (Suc (Suc 0)) ?S (Suc 0) (Some ?b, nl1) [None]
               = load_children (Suc 0) ?S (Suc (Suc 0)) (Some ?a, nl2) [None, Some ?b]"
    by blast
  have "\<exists>nl3. node_uris nl3 = [Some ?a, Some ?b, Some ?a]
          \<and> load_children (Suc 0) ?S (Suc (Suc 0)) (Some ?a, nl2) [None, Some ?b]
               = Some (Inr (nl3, [None, Some ?b, Some ?a]))"
    using load_children_unfold [where srv = ?S and k = "Suc (Suc 0)" and c = "Some ?a", OF s2, of nl2 0 "[None, Some ?b]"] u2
    by (simp del: load_children.simps)
  then obtain nl3 where u3: "node_uris nl3 = [Some ?a, Some ?b, Some ?a]"
    and l3: "load_children (Suc 0) ?S (Suc (Suc 0)) (Some ?a, nl2) [None, Some ?b]
               = Some (Inr (nl3, [None, Some ?b, Some ?a]))"
    by blast
  from l1 l2 l3 u3 show ?thesis by (simp del: load_children.simps)
qed


lemma builds_child_elem: "builds (child_elem u)"
proof -
  have "\<exists>n. Node_init (child_elem u) = Inr n
           \<and> node (obj n) = set_attrib (dict_set ''xmlns:vos'' VOSNS (attrib (child_elem u))) (child_elem u)
           \<and> type (obj n) = Some ''vos:DataNode'' \<and> uri (obj n) = Some u"
    by (rule Node_init_data)
       (simp_all add: child_elem_def eget_def Node_TYPE_def XSINS_def all_properties_def findall_def)
  then show ?thesis by (auto simp: builds_def)
qed

lemma page_uris_container_doc [simp]: "page_uris (Inr (container_doc us)) = map Some us"
  by (simp add: page_uris_def comp_def)

theorem getNode_children_loaded_witness:
  "\<exists>n0 nl. Node_init (container_doc []) = Inr n0 \<and> isdir n0 \<and> (0::int) < 1
      \<and> cursor_chain paging_service 0 None
           [Some ''vos://cadc.nrc.ca!vospace/demo/b'', Some ''vos://cadc.nrc.ca!vospace/demo/c'']
      \<and> answered paging_service 0
           [None, Some ''vos://cadc.nrc.ca!vospace/demo/b'', Some ''vos://cadc.nrc.ca!vospace/demo/c'']
      \<and> length [Some ''vos://cadc.nrc.ca!vospace/demo/b'', Some ''vos://cadc.nrc.ca!vospace/demo/c''] < (3::nat)
      \<and> getNode 3 (Inr (container_doc [])) paging_service 1
          = Some (Inr (set_nodeList (Some nl) n0,
               [None, Some ''vos://cadc.nrc.ca!vospace/demo/b'', Some ''vos://cadc.nrc.ca!vospace/demo/c'']))
      \<and> node_uris nl = [Some ''vos://cadc.nrc.ca!vospace/demo/a'',
                         Some ''vos://cadc.nrc.ca!vospace/demo/b'',
                         Some ''vos://cadc.nrc.ca!vospace/demo/c'']
      \<and> distinct_adj (node_uris nl) \<and> list_all (\<lambda>u. u \<noteq> None) (node_uris nl)"
proof -
  let ?b = "''vos://cadc.nrc.ca!vospace/demo/b''" and ?c = "''vos://cadc.nrc.ca!vospace/demo/c''"
  let ?cs = "[Some ?b, Some ?c]"
  from Node_init_container_doc obtain n0 where n0: "Node_init (container_doc []) = Inr n0" "isdir n0"
    by blast
  have l: "(0::int) < 1" by simp
  have ch: "cursor_chain paging_service 0 None ?cs"
    by (simp add: paging_service_def)
  have an: "answered paging_service 0 (None # ?cs)"
    by (simp add: paging_service_def builds_child_elem list_all_iff)
  have fu: "length ?cs < (3::nat)" by simp
  have su: "tl (remdups_adj (None # seen_uris paging_service 0 (None # ?cs)))
      = [Some ''vos://cadc.nrc.ca!vospace/demo/a'', Some ?b, Some ?c]"
    by (simp add: paging_service_def)
  from getNode_children_loaded [OF n0 l ch an fu] obtain nl where
    g: "getNode 3 (Inr (container_doc [])) paging_service 1
          = Some (Inr (set_nodeList (Some nl) n0, None # ?cs))"
    and u: "node_uris nl = tl (remdups_adj (None # seen_uris paging_service 0 (None # ?cs)))"
    and da: "distinct_adj (node_uris nl)" and la: "list_all (\<lambda>u. u \<noteq> None) (node_uris nl)"
    by blast
  from u su have u': "node_uris nl = [Some ''vos://cadc.nrc.ca!vospace/demo/a'', Some ?b, Some ?c]"
    by (simp only:)
  from n0 l ch an fu g u' da la show ?thesis by blast
qed

text \<open>
  The claim C4 as it was stated fails for a service whose second page lists the first child
  again: only the URI of the child appended last is compared, so the child is appended a
  second time.
\<close>

theorem getNode_keeps_repeated_child:
  "(case getNode 3 (Inr (container_doc [])) repeating_service 1 of
      Some (Inr (n, reqs)) \<Rightarrow> map_option (\<lambda>nl. (node_uris nl, reqs)) (nodeList n)
    | _ \<Rightarrow> None)
     = Some ([Some ''vos://cadc.nrc.ca!vospace/demo/a'', Some ''vos://cadc.nrc.ca!vospace/demo/b'',
              Some ''vos://cadc.nrc.ca!vospace/demo/a''],
             [None, Some ''vos://cadc.nrc.ca!vospace/demo/b'', Some ''vos://cadc.nrc.ca!vospace/demo/a''])
   \<and> \<not> distinct [Some ''vos://cadc.nrc.ca!vospace/demo/a'', Some ''vos://cadc.nrc.ca!vospace/demo/b'',
              Some ''vos://cadc.nrc.ca!vospace/demo/a'']"
proof -
  from Node_init_container_doc obtain n0 where n0: "Node_init (container_doc []) = Inr n0" "isdir n0"
    by blast
  from repeating_service_run obtain nl where
    run: "load_children (Suc (Suc (Suc 0))) repeating_service 0 (None, []) []
          = Some (Inr (nl, [None, Some ''vos://cadc.nrc.ca!vospace/demo/b'',
                            Some ''vos://cadc.nrc.ca!vospace/demo/a'']))"
    and us: "node_uris nl = [Some ''vos://cadc.nrc.ca!vospace/demo/a'',
                         Some ''vos://cadc.nrc.ca!vospace/demo/b'',
                         Some ''vos://cadc.nrc.ca!vospace/demo/a'']"
    by blast
  show ?thesis
    using n0 run us by (simp add: getNode_def numeral_3_eq_3 del: load_children.simps)
qed

end
